theory Spec2Isabelle
  imports Main
begin

section \<open>Bytes, errors and blocking calls\<close>

text \<open>
  A Go \<open>string\<close> and a Go \<open>[]byte\<close> are both sequences of bytes; \<open>char\<close> is an
  eight-bit value, so both are modelled as \<open>char list\<close>.  A Go \<open>error\<close> is
  \<open>error option\<close>, \<open>None\<close> standing for \<open>nil\<close>.  The first three errors are the
  ones package \<open>io\<close> itself produces; \<open>Failure\<close> is any other error, raised by a byte
  source or by a destination.
\<close>

type_synonym bytes = "char list"

datatype error = ErrClosedPipe | ErrShortWrite | ErrInvalidWrite | Failure string

text \<open>
  A call on a synchronous pipe may never return.  \<open>Ret v\<close> is a call that returns
  \<open>v\<close>; \<open>Hang\<close> is a call that blocks for ever, so that nothing after it in the same
  goroutine is executed.
\<close>

datatype 'a outcome = Ret 'a | Hang

text \<open>
  An \<open>io.Writer\<close> over a store of type \<open>'w\<close>: \<open>Write(p)\<close> returns the count and the
  error, and changes the store.
\<close>

type_synonym 'w writer = "bytes \<Rightarrow> 'w \<Rightarrow> (int \<times> error option) outcome \<times> 'w"

section \<open>Package encoding/base64 (standard encoding, padded)\<close>

definition encodeStd :: string where
  "encodeStd = ''ABCDEFGHIJKLMNOPQRSTUVWXYZabcdefghijklmnopqrstuvwxyz0123456789+/''"

text \<open>
  \<open>Encoding.Encode\<close>: three source bytes make the 24-bit value
  \<open>a<<16 | b<<8 | c\<close>, whose four 6-bit fields index the alphabet; a final group of
  one or two bytes is padded with \<open>=\<close>.  The shifts are written as multiplications
  and divisions by powers of two and the mask \<open>0x3F\<close> as \<open>mod 64\<close>.
\<close>

definition sextet :: "nat \<Rightarrow> nat \<Rightarrow> char" where
  "sextet val k = encodeStd ! (val div 64 ^ k mod 64)"

fun b64_Encode :: "bytes \<Rightarrow> bytes" where
  "b64_Encode (a # b # c # rest) =
     (let val = of_char a * 65536 + of_char b * 256 + of_char c
      in [sextet val 3, sextet val 2, sextet val 1, sextet val 0] @ b64_Encode rest)"
| "b64_Encode [a, b] =
     (let val = of_char a * 65536 + of_char b * 256
      in [sextet val 3, sextet val 2, sextet val 1, CHR ''=''])"
| "b64_Encode [a] =
     (let val = of_char a * 65536
      in [sextet val 3, sextet val 2, CHR ''='', CHR ''=''])"
| "b64_Encode [] = []"

text \<open>
  Standard decoding, the inverse the round-trip law refers to: \<open>decodeMap\<close> is the
  table from an alphabet character to its index, four characters give three bytes, and
  only the last group may end in one or two \<open>=\<close>.
\<close>

definition decodeMap :: "char \<Rightarrow> nat option" where
  "decodeMap = map_of (zip encodeStd [0..<64])"

fun b64_Decode :: "bytes \<Rightarrow> bytes option" where
  "b64_Decode [] = Some []"
| "b64_Decode (w # x # y # z # rest) =
     (if rest = [] \<and> z = CHR ''='' then
        (if y = CHR ''='' then
           (case (decodeMap w, decodeMap x) of
              (Some p, Some q) \<Rightarrow> Some [char_of ((p * 64 + q) div 16)]
            | _ \<Rightarrow> None)
         else
           (case (decodeMap w, decodeMap x, decodeMap y) of
              (Some p, Some q, Some r) \<Rightarrow>
                (let val = p * 4096 + q * 64 + r
                 in Some [char_of (val div 1024), char_of (val div 4)])
            | _ \<Rightarrow> None))
      else
        (case (decodeMap w, decodeMap x, decodeMap y, decodeMap z) of
           (Some p, Some q, Some r, Some s) \<Rightarrow>
             (let val = p * 262144 + q * 4096 + r * 64 + s
              in map_option
                   (\<lambda>bs. [char_of (val div 65536), char_of (val div 256), char_of val] @ bs)
                   (b64_Decode rest))
         | _ \<Rightarrow> None))"
| "b64_Decode _ = None"

text \<open>
  The streaming encoder returned by \<open>base64.NewEncoder\<close>: \<open>e_err\<close> is its sticky
  error, \<open>e_buf\<close> the bytes of an incomplete group (\<open>buf[:nbuf]\<close>).  The writer it
  wraps is the parameter \<open>w\<close>.
\<close>

record encoder =
  e_err :: "error option"
  e_buf :: bytes

definition NewEncoder :: encoder where
  "NewEncoder = \<lparr>e_err = None, e_buf = []\<rparr>"

text \<open>
  The loop "large interior chunks" of \<open>encoder.Write\<close>: whole groups are encoded
  and written in blocks of at most 768 source bytes (the output array holds 1024);
  what is left, fewer than three bytes, is kept in the buffer.
\<close>

function enc_interior ::
  "'w writer \<Rightarrow> encoder \<Rightarrow> bytes \<Rightarrow> int \<Rightarrow> 'w \<Rightarrow> ((int \<times> error option) \<times> encoder) outcome \<times> 'w"
where
  "enc_interior w e p n st =
     (if 3 \<le> length p then
        (let nn = (if 768 > length p then length p - length p mod 3 else 768)
         in case w (b64_Encode (take nn p)) st of
              (Hang, st') \<Rightarrow> (Hang, st')
            | (Ret (_, Some err), st') \<Rightarrow> (Ret ((n, Some err), e\<lparr>e_err := Some err\<rparr>), st')
            | (Ret (_, None), st') \<Rightarrow> enc_interior w e (drop nn p) (n + int nn) st')
      else (Ret ((n + int (length p), None), e\<lparr>e_buf := p\<rparr>), st))"
  by pat_completeness auto
termination
  by (relation "measure (\<lambda>(w, e, p, n, st). length p)") (auto split: if_splits)

declare enc_interior.simps [simp del]

text \<open>\<open>encoder.Write\<close>: sticky error, leading fringe, interior, trailing fringe.\<close>

definition enc_Write ::
  "'w writer \<Rightarrow> encoder \<Rightarrow> bytes \<Rightarrow> 'w \<Rightarrow> ((int \<times> error option) \<times> encoder) outcome \<times> 'w"
where
  "enc_Write w e p st =
     (case e_err e of
        Some err \<Rightarrow> (Ret ((0, Some err), e), st)
      | None \<Rightarrow>
          if e_buf e \<noteq> [] then
            (let i = min (length p) (3 - length (e_buf e));
                 buf = e_buf e @ take i p
             in if length buf < 3 then (Ret ((int i, None), e\<lparr>e_buf := buf\<rparr>), st)
                else
                  (case w (b64_Encode buf) st of
                     (Hang, st') \<Rightarrow> (Hang, st')
                   | (Ret (_, Some err), st') \<Rightarrow>
                       (Ret ((int i, Some err), e\<lparr>e_err := Some err, e_buf := buf\<rparr>), st')
                   | (Ret (_, None), st') \<Rightarrow>
                       enc_interior w (e\<lparr>e_buf := []\<rparr>) (drop i p) (int i) st'))
          else enc_interior w e p 0 st)"

text \<open>\<open>encoder.Close\<close>: flush the incomplete group, if any; return the sticky error.\<close>

definition enc_Close ::
  "'w writer \<Rightarrow> encoder \<Rightarrow> 'w \<Rightarrow> (error option \<times> encoder) outcome \<times> 'w"
where
  "enc_Close w e st =
     (if e_err e = None \<and> e_buf e \<noteq> [] then
        (case w (b64_Encode (e_buf e)) st of
           (Hang, st') \<Rightarrow> (Hang, st')
         | (Ret (_, r), st') \<Rightarrow> (Ret (r, e\<lparr>e_err := r, e_buf := []\<rparr>), st'))
      else (Ret (e_err e, e), st))"

text \<open>\<open>bytes.Buffer.Write\<close> appends and never fails.\<close>

definition buffer_Write :: "bytes writer" where
  "buffer_Write p buf = (Ret (int (length p), None), buf @ p)"

section \<open>Options (imgcat.go, lines 27 to 92)\<close>

type_synonym Option = string
type_synonym Length = string

text \<open>
  \<open>fmt.Sprint\<close> and \<open>%d\<close> of an \<open>int\<close>: decimal digits, with a minus sign for a
  negative value.  No arithmetic is done on these integers, so they are taken as
  \<open>int\<close>.
\<close>

function dec_digits :: "nat \<Rightarrow> string" where
  "dec_digits n = (if n < 10 then [''0123456789'' ! n]
                   else dec_digits (n div 10) @ [''0123456789'' ! (n mod 10)])"
  by pat_completeness auto
termination
  by (relation "measure id") auto

declare dec_digits.simps [simp del]

definition itoa :: "int \<Rightarrow> string" where
  "itoa x = (if x < 0 then ''-'' @ dec_digits (nat (- x)) else dec_digits (nat x))"

definition Cells :: "int \<Rightarrow> Length" where
  "Cells x = itoa x"

definition Pixels :: "int \<Rightarrow> Length" where
  "Pixels x = itoa x @ ''px''"

definition Percent :: "int \<Rightarrow> Length" where
  "Percent x = itoa x @ ''%''"

definition Auto :: Length where
  "Auto = ''auto''"

text \<open>
  \<open>Name\<close> (lines 46 to 54).  \<open>fmt.Fprint(enc, name)\<close> is one \<open>Write\<close> of the
  name's bytes, whose result is dropped; a non-nil error of \<open>enc.Close()\<close> ends the
  process through \<open>log.Fatalf\<close>, which is the result \<open>Inl\<close>.
\<close>

definition Name :: "string \<Rightarrow> (error + Option) outcome" where
  "Name name =
     (case enc_Write buffer_Write NewEncoder name [] of
        (Hang, _) \<Rightarrow> Hang
      | (Ret (_, enc), buf) \<Rightarrow>
          (case enc_Close buffer_Write enc buf of
             (Hang, _) \<Rightarrow> Hang
           | (Ret (Some err, _), _) \<Rightarrow> Ret (Inl err)
           | (Ret (None, _), buf') \<Rightarrow> Ret (Inr (''name='' @ buf'))))"

definition Size :: "int \<Rightarrow> Option" where
  "Size sz = ''size='' @ itoa sz"

definition Width :: "Length \<Rightarrow> Option" where
  "Width l = ''width='' @ l"

definition Height :: "Length \<Rightarrow> Option" where
  "Height l = ''height='' @ l"

definition boolToInt :: "bool \<Rightarrow> int" where
  "boolToInt b = (if b then 1 else 0)"

definition PreserveAspectRatio :: "bool \<Rightarrow> Option" where
  "PreserveAspectRatio b = ''preserveAspectRatio='' @ itoa (boolToInt b)"

definition Inline :: "bool \<Rightarrow> Option" where
  "Inline b = ''inline='' @ itoa (boolToInt b)"

section \<open>Environment and framing (lines 94 to 136)\<close>

text \<open>\<open>os.Getenv\<close>: the value of a variable, empty when it is not set.\<close>

type_synonym env = "string \<Rightarrow> string"

definition isSupported :: "env \<Rightarrow> bool" where
  "isSupported getenv = (getenv ''TERM_PROGRAM'' = ''iTerm.app'')"

definition isTmux :: "env \<Rightarrow> bool" where
  "isTmux getenv =
     (if getenv ''TMUX_TEST'' = ''false'' then False
      else if getenv ''TMUX_TEST'' = ''true'' then True
      else (getenv ''TERM'' = ''screen'' \<or> length (getenv ''TMUX'') > 0))"

definition ESC :: char where "ESC = CHR 0x1B"
definition BEL :: char where "BEL = CHR 0x07"

definition headerEscape :: "env \<Rightarrow> string" where
  "headerEscape getenv =
     (if isTmux getenv then [ESC] @ ''Ptmux;'' @ [ESC, ESC] @ '']1337;File=''
      else [ESC] @ '']1337;File='')"

definition footerEscape :: "env \<Rightarrow> string" where
  "footerEscape getenv =
     (if isTmux getenv then [BEL, ESC, CHR 0x5C, CHR 0x0A]
      else [BEL, CHR 0x0A])"

section \<open>The destination and the drain loop (line 189)\<close>

text \<open>
  The destination \<open>enc.out\<close> is any \<open>io.Writer\<close>: a function from the bytes passed
  and its own state to the count and error it returns and its new state.  Every
  \<open>Write\<close> call made on it is recorded, with the part of the stream the bytes came
  from.
\<close>

type_synonym 's sink = "bytes \<Rightarrow> 's \<Rightarrow> (int \<times> error option) \<times> 's"

record 's Encoder =
  out :: "'s sink"
  options :: "Option list"

datatype segment = Header | Body | Footer

record call =
  c_seg :: segment
  c_data :: bytes
  c_n :: int
  c_err :: "error option"

datatype drain_state = Draining | Returned "error option"

datatype task_state = Copying | Stuck | Exited

datatype pipe_op = PWrite bytes "(int \<times> error option) outcome" | PClose "error option"

text \<open>
  The state of one \<open>Encode\<close> call.  \<open>drain\<close> is the \<open>io.Copy\<close> of line 189:
  still running, or returned with the error that \<open>Encode\<close> returns.  \<open>werr\<close> is the
  terminal state of the pipe of line 166: \<open>None\<close> while the write end is open,
  \<open>Some None\<close> once closed with end of file, \<open>Some (Some e)\<close> once closed with
  \<open>e\<close>.  \<open>footer\<close> is the third reader of the \<open>MultiReader\<close>.  \<open>b64\<close> and \<open>task\<close>
  belong to the goroutine of lines 167 to 185: its encoder, and whether it is still in
  \<open>io.Copy\<close>, blocked for ever in a pipe write, or finished.  \<open>reads\<close> counts the
  \<open>Read\<close> calls on the byte source and \<open>pw_ops\<close> lists the calls on \<open>pw\<close>.
\<close>

record 's pipeline =
  dest :: 's
  calls :: "call list"
  drain :: drain_state
  werr :: "error option option"
  footer :: bytes
  b64 :: encoder
  task :: task_state
  reads :: nat
  pw_ops :: "pipe_op list"

text \<open>The buffer \<open>io.Copy\<close> allocates: 32 KiB.\<close>

definition copy_buf :: nat where
  "copy_buf = 32768"

text \<open>
  What \<open>io.Copy\<close> makes of the result of a \<open>Write\<close>: an invalid count
  (negative, or more than was passed) is an error, \<open>errInvalidWrite\<close> unless the
  writer gave one; then the writer's error; then a short count, \<open>ErrShortWrite\<close>.
\<close>

definition copy_error :: "call \<Rightarrow> error option" where
  "copy_error c =
     (if c_n c < 0 \<or> int (length (c_data c)) < c_n c then
        Some (case c_err c of None \<Rightarrow> ErrInvalidWrite | Some e \<Rightarrow> e)
      else if c_err c \<noteq> None then c_err c
      else if int (length (c_data c)) \<noteq> c_n c then Some ErrShortWrite
      else None)"

text \<open>
  One turn of the loop of \<open>io.Copy\<close> in which \<open>Read\<close> gave \<open>piece\<close>: the piece is
  written to the destination, and an error ends the copy.
\<close>

definition write_piece :: "'s sink \<Rightarrow> segment \<Rightarrow> bytes \<Rightarrow> 's pipeline \<Rightarrow> 's pipeline" where
  "write_piece snk sg piece s =
     (case snk piece (dest s) of
        ((nw, ew), d) \<Rightarrow>
          (let c = \<lparr>c_seg = sg, c_data = piece, c_n = nw, c_err = ew\<rparr>;
               s' = s\<lparr>dest := d, calls := calls s @ [c]\<rparr>
           in case copy_error c of
                Some e \<Rightarrow> s'\<lparr>drain := Returned (Some e)\<rparr>
              | None \<Rightarrow> s'))"

text \<open>
  The loop on the bytes \<open>avail\<close> that the current reader of the \<open>MultiReader\<close> has
  to give: each \<open>Read\<close> takes at most \<open>copy_buf\<close> of them.  The result is what was
  not read, and the state.
\<close>

function copy_data :: "'s sink \<Rightarrow> segment \<Rightarrow> bytes \<Rightarrow> 's pipeline \<Rightarrow> bytes \<times> 's pipeline" where
  "copy_data snk sg avail s =
     (if avail = [] \<or> drain s \<noteq> Draining then (avail, s)
      else copy_data snk sg (drop copy_buf avail) (write_piece snk sg (take copy_buf avail) s))"
  by pat_completeness auto
termination
  by (relation "measure (\<lambda>(snk, sg, avail, s). length avail)") (auto simp: copy_buf_def)

declare copy_data.simps [simp del]

section \<open>The pipe of line 166\<close>

text \<open>
  \<open>io.Pipe\<close> is synchronous and has no buffer: \<open>pw.Write(p)\<close> returns once the
  reader has taken all of \<open>p\<close>.  The only reader of \<open>pr\<close> is the drain loop, so the
  write is the drain loop taking \<open>p\<close> and writing it to the destination.  \<open>Encode\<close>
  never closes \<open>pr\<close>: once the drain loop has returned, a write blocks for ever.  A
  write after the write end was closed returns \<open>ErrClosedPipe\<close>.
\<close>

definition pipe_Write :: "'s sink \<Rightarrow> ('s pipeline) writer" where
  "pipe_Write snk p s =
     (if werr s \<noteq> None then
        (Ret (0, Some ErrClosedPipe),
         s\<lparr>pw_ops := pw_ops s @ [PWrite p (Ret (0, Some ErrClosedPipe))]\<rparr>)
      else if drain s \<noteq> Draining then (Hang, s\<lparr>pw_ops := pw_ops s @ [PWrite p Hang]\<rparr>)
      else
        (case copy_data snk Body p s of
           (rest, s') \<Rightarrow>
             (let r = (if rest = [] then Ret (int (length p), None) else Hang)
              in (r, s'\<lparr>pw_ops := pw_ops s' @ [PWrite p r]\<rparr>))))"

text \<open>
  \<open>pw.CloseWithError(err)\<close>: only the first call sets the terminal state.  The drain
  loop, if it is still running, then gets that state from \<open>pr.Read\<close>: on an error it
  returns it; on end of file the \<open>MultiReader\<close> goes on to the footer, and \<open>io.Copy\<close>
  returns nil after it.
\<close>

definition pipe_CloseWithError :: "'s sink \<Rightarrow> error option \<Rightarrow> 's pipeline \<Rightarrow> 's pipeline" where
  "pipe_CloseWithError snk err s =
     (let s1 = s\<lparr>pw_ops := pw_ops s @ [PClose err]\<rparr>
      in if werr s1 \<noteq> None then s1
         else
           (let s2 = s1\<lparr>werr := Some err\<rparr>
            in if drain s2 \<noteq> Draining then s2
               else
                 (case err of
                    Some e \<Rightarrow> s2\<lparr>drain := Returned (Some e)\<rparr>
                  | None \<Rightarrow>
                      (case copy_data snk Footer (footer s2) s2 of
                         (_, s3) \<Rightarrow>
                           if drain s3 = Draining then s3\<lparr>drain := Returned None\<rparr> else s3))))"

section \<open>The transcoding goroutine (lines 167 to 185)\<close>

text \<open>
  The deferred function of lines 169 to 175, run when the goroutine's body has
  returned.
\<close>

definition deferred_close :: "'s sink \<Rightarrow> 's pipeline \<Rightarrow> 's pipeline" where
  "deferred_close snk s =
     (case enc_Close (pipe_Write snk) (b64 s) s of
        (Hang, s1) \<Rightarrow> s1\<lparr>task := Stuck\<rparr>
      | (Ret (r, e), s1) \<Rightarrow>
          (let s2 = s1\<lparr>b64 := e\<rparr>
           in (case r of
                 Some err \<Rightarrow> pipe_CloseWithError snk (Some err) s2
               | None \<Rightarrow> s2)\<lparr>task := Exited\<rparr>))"

text \<open>Lines 178 to 184, with \<open>err\<close> the result of \<open>io.Copy(enc, r)\<close>.\<close>

definition after_copy :: "'s sink \<Rightarrow> error option \<Rightarrow> 's pipeline \<Rightarrow> 's pipeline" where
  "after_copy snk err s =
     (case err of
        Some e \<Rightarrow> deferred_close snk (pipe_CloseWithError snk (Some e) s)
      | None \<Rightarrow>
          (case enc_Close (pipe_Write snk) (b64 s) s of
             (Hang, s1) \<Rightarrow> s1\<lparr>task := Stuck\<rparr>
           | (Ret (r, e), s1) \<Rightarrow> deferred_close snk (pipe_CloseWithError snk r (s1\<lparr>b64 := e\<rparr>))))"

text \<open>
  \<open>io.Copy(enc, r)\<close> of line 177, one \<open>Read\<close> at a time.  \<open>feed\<close> is a turn in
  which \<open>r.Read\<close> gives the bytes \<open>chunk\<close> and no error: they are written to the
  encoder, and an error of that write ends the copy.  \<open>finish\<close> is the turn in which
  \<open>r.Read\<close> gives end of file (\<open>None\<close>) or an error.  A goroutine that is blocked
  or has finished reads nothing.
\<close>

definition feed :: "'s sink \<Rightarrow> bytes \<Rightarrow> 's pipeline \<Rightarrow> 's pipeline" where
  "feed snk chunk s =
     (if task s \<noteq> Copying then s
      else
        (let s1 = s\<lparr>reads := reads s + 1\<rparr>
         in if chunk = [] then s1
            else
              (case enc_Write (pipe_Write snk) (b64 s1) chunk s1 of
                 (Hang, s2) \<Rightarrow> s2\<lparr>task := Stuck\<rparr>
               | (Ret ((nw, ew), e), s2) \<Rightarrow>
                   (let s3 = s2\<lparr>b64 := e\<rparr>
                    in if nw < 0 \<or> int (length chunk) < nw then
                         after_copy snk
                           (Some (case ew of None \<Rightarrow> ErrInvalidWrite | Some e \<Rightarrow> e)) s3
                       else if ew \<noteq> None then after_copy snk ew s3
                       else if int (length chunk) \<noteq> nw then after_copy snk (Some ErrShortWrite) s3
                       else s3))))"

definition finish :: "'s sink \<Rightarrow> error option \<Rightarrow> 's pipeline \<Rightarrow> 's pipeline" where
  "finish snk fin s =
     (if task s \<noteq> Copying then s
      else after_copy snk fin (s\<lparr>reads := reads s + 1\<rparr>))"

section \<open>Encode (lines 156 to 191)\<close>

text \<open>The loop of lines 159 to 164: \<open>i\<close> is the index, \<open>n\<close> is \<open>len(enc.options)\<close>.\<close>

fun write_options :: "Option list \<Rightarrow> nat \<Rightarrow> nat \<Rightarrow> bytes \<Rightarrow> bytes" where
  "write_options [] i n header = header"
| "write_options (option # rest) i n header =
     write_options rest (i + 1) n
       (header @ option @ (if int i < int n - 1 then '';'' else []))"

definition build_header :: "env \<Rightarrow> Option list \<Rightarrow> bytes" where
  "build_header getenv opts =
     write_options opts 0 (length opts) (headerEscape getenv) @ '':''"

text \<open>
  A byte source, as \<open>io.Copy\<close> sees it: the blocks its successive \<open>Read\<close> calls
  give, and then end of file (\<open>None\<close>) or an error.
\<close>

record source =
  chunks :: "bytes list"
  final :: "error option"

text \<open>
  The start of \<open>Encode\<close>: header and footer are built, the pipe is made, the
  goroutine is started, and the drain loop copies the header, which needs nothing from
  the goroutine.
\<close>

definition Encode_start :: "env \<Rightarrow> 's Encoder \<Rightarrow> 's \<Rightarrow> 's pipeline" where
  "Encode_start getenv enc d =
     snd (copy_data (out enc) Header (build_header getenv (options enc))
            \<lparr>dest = d, calls = [], drain = Draining, werr = None,
             footer = footerEscape getenv, b64 = NewEncoder, task = Copying,
             reads = 0, pw_ops = []\<rparr>)"

definition Encode :: "env \<Rightarrow> 's Encoder \<Rightarrow> source \<Rightarrow> 's \<Rightarrow> 's pipeline" where
  "Encode getenv enc r d =
     finish (out enc) (final r)
       (foldl (\<lambda>s chunk. feed (out enc) chunk s) (Encode_start getenv enc d) (chunks r))"

text \<open>What the \<open>Encode\<close> call gives its caller: the error, if the call returns.\<close>

definition result :: "'s pipeline \<Rightarrow> error option outcome" where
  "result s = (case drain s of Returned err \<Rightarrow> Ret err | Draining \<Rightarrow> Hang)"

text \<open>The bytes the destination was given, in order.\<close>

definition written :: "'s pipeline \<Rightarrow> bytes" where
  "written s = concat (map c_data (calls s))"

text \<open>Two destinations: a \<open>bytes.Buffer\<close>, and a writer that is closed.\<close>

definition buffer_sink :: "bytes sink" where
  "buffer_sink p buf = ((int (length p), None), buf @ p)"

definition closed_sink :: "unit sink" where
  "closed_sink p u = ((0, Some (Failure ''file already closed'')), u)"

section \<open>Writer (lines 193 to 220)\<close>

text \<open>
  What \<open>Writer\<close> sets up: the \<open>Encode\<close> call of line 199, which reads from the
  pipe of line 195, and that pipe and the channel \<open>done\<close>.  \<open>pw_closed\<close> says that
  the write end \<open>w.pw\<close> is closed, \<open>pr_err\<close> is the error the read end was closed
  with (line 201), \<open>done_closed\<close> says that \<open>w.done\<close> is closed.
\<close>

record 's session =
  run :: "'s pipeline"
  pw_closed :: bool
  pr_err :: "error option"
  done_closed :: bool

text \<open>
  The goroutine of lines 197 to 203 once \<open>Encode\<close> has returned: on an error it
  closes the read end with it, so that a \<open>Read\<close> of the transcoding goroutine on that
  pipe returns \<open>ErrClosedPipe\<close>; then \<open>done\<close> is closed.  It is taken to react at
  once.
\<close>

definition on_return :: "'s sink \<Rightarrow> 's session \<Rightarrow> 's session" where
  "on_return snk w =
     (if done_closed w then w
      else
        (case drain (run w) of
           Draining \<Rightarrow> w
         | Returned None \<Rightarrow> w\<lparr>done_closed := True\<rparr>
         | Returned (Some err) \<Rightarrow>
             w\<lparr>pr_err := Some err,
               run := finish snk (Some ErrClosedPipe) (run w),
               done_closed := True\<rparr>))"

definition Writer :: "env \<Rightarrow> 's Encoder \<Rightarrow> 's \<Rightarrow> 's session" where
  "Writer getenv enc d =
     on_return (out enc)
       \<lparr>run = Encode_start getenv enc d, pw_closed = False, pr_err = None,
        done_closed = False\<rparr>"

text \<open>
  \<open>writer.Write\<close> (line 212) is \<open>w.pw.Write\<close>.  The reader of that pipe is the
  \<open>io.Copy\<close> of line 177, which takes at most \<open>copy_buf\<close> bytes at a time; a write
  of no bytes is still handed over once.  A write on a closed pipe returns the error of
  the read end, or \<open>ErrClosedPipe\<close> when the write end was closed.
\<close>

function split_reads :: "bytes \<Rightarrow> bytes list" where
  "split_reads p =
     (if length p \<le> copy_buf then [p]
      else take copy_buf p # split_reads (drop copy_buf p))"
  by pat_completeness auto
termination
  by (relation "measure length") (auto simp: copy_buf_def)

declare split_reads.simps [simp del]

fun hand_over ::
  "'s sink \<Rightarrow> bytes list \<Rightarrow> int \<Rightarrow> 's session \<Rightarrow> (int \<times> error option) outcome \<times> 's session"
where
  "hand_over snk [] n w = (Ret (n, None), w)"
| "hand_over snk (piece # rest) n w =
     (if pw_closed w then (Ret (n, Some ErrClosedPipe), w)
      else
        (case pr_err w of
           Some err \<Rightarrow> (Ret (n, Some err), w)
         | None \<Rightarrow>
             if task (run w) \<noteq> Copying then (Hang, w)
             else hand_over snk rest (n + int (length piece))
                    (on_return snk (w\<lparr>run := feed snk piece (run w)\<rparr>))))"

definition writer_Write :: "'s sink \<Rightarrow> bytes \<Rightarrow> 's session \<Rightarrow> (int \<times> error option) outcome \<times> 's session" where
  "writer_Write snk p w = hand_over snk (split_reads p) 0 w"

text \<open>
  \<open>w.pw.Close()\<close> always returns nil.  The first call closes the write end: the
  transcoding goroutine, if it is still reading, gets end of file.
\<close>

definition pw_Close :: "'s sink \<Rightarrow> 's session \<Rightarrow> error option \<times> 's session" where
  "pw_Close snk w =
     (if pw_closed w then (None, w)
      else (None, on_return snk (w\<lparr>pw_closed := True, run := finish snk None (run w)\<rparr>)))"

text \<open>\<open>writer.Close\<close> (lines 214 to 220): \<open><-w.done\<close> returns once \<open>done\<close> is closed.\<close>

definition writer_Close :: "'s sink \<Rightarrow> 's session \<Rightarrow> error option outcome \<times> 's session" where
  "writer_Close snk w =
     (case pw_Close snk w of
        (Some err, w1) \<Rightarrow> (Ret (Some err), w1)
      | (None, w1) \<Rightarrow> if done_closed w1 then (Ret None, w1) else (Hang, w1))"

text \<open>
  A caller that makes the writes \<open>ps\<close> one after the other; a write that blocks for
  ever ends the sequence.
\<close>

fun writes :: "'s sink \<Rightarrow> bytes list \<Rightarrow> 's session \<Rightarrow> 's session outcome" where
  "writes snk [] w = Ret w"
| "writes snk (p # ps) w =
     (case writer_Write snk p w of
        (Hang, _) \<Rightarrow> Hang
      | (Ret _, w') \<Rightarrow> writes snk ps w')"

text \<open>
  Two environments, outside and inside tmux, and a destination with room for \<open>cap\<close>
  bytes, which takes what fits and then fails.
\<close>

definition plain_env :: env where
  "plain_env = (\<lambda>v. [])"

definition tmux_env :: env where
  "tmux_env = (\<lambda>v. if v = ''TMUX'' then ''/tmp/tmux-1000/default,4242,0'' else [])"

definition limited_sink :: "nat \<Rightarrow> bytes sink" where
  "limited_sink cap p buf =
     (if length buf + length p \<le> cap then ((int (length p), None), buf @ p)
      else ((int (cap - length buf), Some (Failure ''no space left on device'')),
            buf @ take (cap - length buf) p))"

section \<open>Notions the properties are stated with\<close>

text \<open>
  The bytes of one part of the stream that the destination was given; the order of
  the parts; a destination that takes every write whole; an \<open>Encode\<close> call in
  which a write to the destination has failed.
\<close>

definition part :: "segment \<Rightarrow> 's pipeline \<Rightarrow> bytes" where
  "part sg s = concat (map c_data (filter (\<lambda>c. c_seg c = sg) (calls s)))"

fun rank :: "segment \<Rightarrow> nat" where
  "rank Header = 0"
| "rank Body = 1"
| "rank Footer = 2"

definition accepts :: "'s sink \<Rightarrow> bool" where
  "accepts snk = (\<forall>p d. fst (snk p d) = (int (length p), None))"

definition failed :: "'s pipeline \<Rightarrow> bool" where
  "failed s = (\<exists>c \<in> set (calls s). copy_error c \<noteq> None)"

text \<open>
  The terminal state that the calls on \<open>pw\<close> communicate is that of the first
  close.  \<open>quiet\<close> says that after the first close nothing goes through the pipe:
  every later write is turned down with \<open>ErrClosedPipe\<close>.
\<close>

fun first_close :: "pipe_op list \<Rightarrow> error option option" where
  "first_close [] = None"
| "first_close (PClose err # ops) = Some err"
| "first_close (PWrite p r # ops) = first_close ops"

fun rejected :: "pipe_op \<Rightarrow> bool" where
  "rejected (PWrite p r) = (r = Ret (0, Some ErrClosedPipe))"
| "rejected (PClose err) = True"

fun quiet :: "pipe_op list \<Rightarrow> bool" where
  "quiet [] = True"
| "quiet (PWrite p r # ops) = quiet ops"
| "quiet (PClose err # ops) = list_all rejected ops"

text \<open>The attributes joined by semicolons, as the wire format is described.\<close>

fun join_attrs :: "Option list \<Rightarrow> bytes" where
  "join_attrs [] = []"
| "join_attrs [a] = a"
| "join_attrs (a # b # rest) = a @ '';'' @ join_attrs (b # rest)"

section \<open>Invariants of an Encode call\<close>

text \<open>
  Order: the calls on the destination go from header to body to footer, and the
  footer is only written once the pipe was closed with end of file.
\<close>

definition inv_order :: "'s pipeline \<Rightarrow> bool" where
  "inv_order s =
     (sorted (map (\<lambda>c. rank (c_seg c)) (calls s)) \<and>
      ((\<exists>c \<in> set (calls s). c_seg c = Footer) \<longrightarrow> werr s = Some None))"

text \<open>Progress: a closed pipe or a goroutine that reads no more means the drain loop has returned.\<close>

definition inv_live :: "'s pipeline \<Rightarrow> bool" where
  "inv_live s =
     ((werr s \<noteq> None \<longrightarrow> drain s \<noteq> Draining) \<and>
      (task s \<noteq> Copying \<longrightarrow> drain s \<noteq> Draining))"

text \<open>Failure: only the last call can have failed, and then its error is what the drain loop returned.\<close>

definition inv_fail :: "'s pipeline \<Rightarrow> bool" where
  "inv_fail s =
     ((\<forall>c \<in> set (butlast (calls s)). copy_error c = None) \<and>
      (drain s = Draining \<longrightarrow> \<not> failed s) \<and>
      (\<forall>e. calls s \<noteq> [] \<and> copy_error (last (calls s)) = Some e \<longrightarrow>
           drain s = Returned (Some e)))"

text \<open>Header: it is complete while the drain loop runs and before anything else is written.\<close>

definition inv_head :: "bytes \<Rightarrow> 's pipeline \<Rightarrow> bool" where
  "inv_head hdr s =
     ((drain s = Draining \<or> (\<exists>c \<in> set (calls s). c_seg c \<noteq> Header)) \<longrightarrow>
      part Header s = hdr)"

text \<open>Pipe: its terminal state is that of the first close, and it is quiet after it.\<close>

definition inv_pipe :: "'s pipeline \<Rightarrow> bool" where
  "inv_pipe s = (werr s = first_close (pw_ops s) \<and> quiet (pw_ops s))"

text \<open>Every recorded call is a call of the destination.\<close>

definition inv_sink :: "'s sink \<Rightarrow> 's pipeline \<Rightarrow> bool" where
  "inv_sink snk s = (\<forall>c \<in> set (calls s). \<exists>d. fst (snk (c_data c) d) = (c_n c, c_err c))"

definition invar :: "'s sink \<Rightarrow> bytes \<Rightarrow> 's pipeline \<Rightarrow> bool" where
  "invar snk hdr s =
     (inv_order s \<and> inv_live s \<and> inv_fail s \<and> inv_head hdr s \<and> inv_pipe s \<and> inv_sink snk s)"

section \<open>Abbreviations used in the proofs\<close>

text \<open>
  \<open>block p\<close> is the number of source bytes one turn of the interior loop takes from
  \<open>p\<close>; \<open>lead e p\<close> is the number of bytes of \<open>p\<close> that the leading fringe moves
  into the buffer.
\<close>

definition block :: "bytes \<Rightarrow> nat" where
  "block p = (if 768 > length p then length p - length p mod 3 else 768)"

definition lead :: "encoder \<Rightarrow> bytes \<Rightarrow> nat" where
  "lead e p = min (length p) (3 - length (e_buf e))"

text \<open>
  \<open>grows\<close> is what one run of the drain loop on a reader's bytes does to the state:
  it adds calls of one part, which hold the bytes read, of which only the last can have
  failed, and changes nothing on the side of the goroutine.  \<open>settled\<close> says that the
  drain loop had returned in \<open>s0\<close> and that \<open>s\<close> has the same result and the same
  calls.
\<close>

definition grows :: "'s sink \<Rightarrow> segment \<Rightarrow> bytes \<Rightarrow> bytes \<Rightarrow> 's pipeline \<Rightarrow> 's pipeline \<Rightarrow> bool" where
  "grows snk sg avail rest s s' =
     (\<exists>cs. calls s' = calls s @ cs \<and> (\<forall>c \<in> set cs. c_seg c = sg) \<and>
           concat (map c_data cs) @ rest = avail \<and>
           (\<forall>c \<in> set (butlast cs). copy_error c = None) \<and>
           (case drain s' of
              Draining \<Rightarrow> rest = [] \<and> (\<forall>c \<in> set cs. copy_error c = None)
            | Returned r \<Rightarrow> cs \<noteq> [] \<and> r = copy_error (last cs) \<and> r \<noteq> None) \<and>
           (\<forall>c \<in> set cs. \<exists>d. fst (snk (c_data c) d) = (c_n c, c_err c)) \<and>
           werr s' = werr s \<and> footer s' = footer s \<and> b64 s' = b64 s \<and> task s' = task s \<and>
           reads s' = reads s \<and> pw_ops s' = pw_ops s)"

definition settled :: "'s pipeline \<Rightarrow> 's pipeline \<Rightarrow> bool" where
  "settled s0 s =
     (drain s0 \<noteq> Draining \<and> drain s = drain s0 \<and> calls s = calls s0 \<and> dest s = dest s0 \<and>
      reads s = reads s0 \<and> (werr s0 \<noteq> None \<longrightarrow> werr s = werr s0))"

text \<open>
  The course of a call in which no write to the destination fails.  \<open>feeding\<close>: the
  header is out, the drain loop runs, the pipe is open, the goroutine has made \<open>n\<close>
  reads.  \<open>fed\<close>: moreover the source has given the bytes \<open>inp\<close> so far, of which
  whole groups are encoded and written and the rest is in the encoder's buffer.
  \<open>broken\<close>: a write to the destination has failed and the drain loop has returned.
  \<open>done_ok\<close> and \<open>done_err\<close>: the call has returned nil, or the error \<open>e\<close> of the
  source, without a failed write.
\<close>

definition feeding :: "bytes \<Rightarrow> bytes \<Rightarrow> nat \<Rightarrow> 's pipeline \<Rightarrow> bool" where
  "feeding hdr ftr n s =
     (drain s = Draining \<and> werr s = None \<and> task s = Copying \<and> footer s = ftr \<and> reads s = n \<and>
      part Header s = hdr \<and> part Footer s = [] \<and> inv_fail s)"

definition broken :: "'s pipeline \<Rightarrow> bool" where
  "broken s = (failed s \<and> drain s \<noteq> Draining)"

definition fed :: "bytes \<Rightarrow> bytes \<Rightarrow> nat \<Rightarrow> bytes \<Rightarrow> 's pipeline \<Rightarrow> bool" where
  "fed hdr ftr n inp s =
     (feeding hdr ftr n s \<and> e_err (b64 s) = None \<and> length (e_buf (b64 s)) < 3 \<and>
      (\<exists>X. X @ e_buf (b64 s) = inp \<and> length X mod 3 = 0 \<and> part Body s = b64_Encode X))"

definition done_ok :: "bytes \<Rightarrow> bytes \<Rightarrow> nat \<Rightarrow> bytes \<Rightarrow> 's pipeline \<Rightarrow> bool" where
  "done_ok hdr ftr n inp s =
     (drain s = Returned None \<and> werr s = Some None \<and> reads s = n \<and> part Header s = hdr \<and>
      part Body s = b64_Encode inp \<and> part Footer s = ftr \<and> \<not> failed s)"

definition done_err :: "error \<Rightarrow> bytes \<Rightarrow> nat \<Rightarrow> 's pipeline \<Rightarrow> bool" where
  "done_err e hdr n s =
     (drain s = Returned (Some e) \<and> werr s = Some (Some e) \<and> reads s = n \<and>
      part Header s = hdr \<and> part Footer s = [] \<and> \<not> failed s)"

section \<open>Properties of the base64 model\<close>

lemma length_encodeStd: "length encodeStd = 64"
  by (simp add: encodeStd_def)

lemma distinct_encodeStd: "distinct encodeStd"
  by (simp add: encodeStd_def)

lemma decodeMap_nth: "i < 64 \<Longrightarrow> decodeMap (encodeStd ! i) = Some i"
  unfolding decodeMap_def
  using map_of_zip_nth [of encodeStd "[0..<64]" i] length_encodeStd distinct_encodeStd
  by simp

lemma pad_notin: "decodeMap (CHR ''='') = None"
  by (simp add: decodeMap_def encodeStd_def)

lemma decodeMap_sextet: "decodeMap (sextet v k) = Some (v div 64 ^ k mod 64)"
  unfolding sextet_def by (rule decodeMap_nth) simp

lemma sextet_ne_pad: "sextet v k \<noteq> CHR ''=''"
proof
  assume "sextet v k = CHR ''=''"
  then show False using decodeMap_sextet [of v k] pad_notin by simp
qed

lemma digits64_2: "(v::nat) div 64 mod 64 * 64 + v mod 64 = v mod 4096"
  using mod_mult2_eq [of v 64 64] by simp

lemma digits64_3: "(v::nat) div 4096 mod 64 * 4096 + v div 64 mod 64 * 64 + v mod 64 = v mod 262144"
proof -
  have "v mod 262144 = 64 * (v div 64 mod 4096) + v mod 64"
    using mod_mult2_eq [of v 64 4096] by simp
  moreover have "v div 64 mod 4096 = v div 64 div 64 mod 64 * 64 + v div 64 mod 64"
    using digits64_2 [of "v div 64"] by simp
  moreover have "v div 64 div 64 = v div 4096"
    by (simp add: div_mult2_eq [symmetric])
  ultimately show ?thesis by simp
qed

lemma digits64_4:
  "(v::nat) div 262144 mod 64 * 262144 + v div 4096 mod 64 * 4096 + v div 64 mod 64 * 64 + v mod 64
     = v mod 16777216"
proof -
  have "v mod 16777216 = 64 * (v div 64 mod 262144) + v mod 64"
    using mod_mult2_eq [of v 64 262144] by simp
  moreover have "v div 64 mod 262144
       = v div 64 div 4096 mod 64 * 4096 + v div 64 div 64 mod 64 * 64 + v div 64 mod 64"
    using digits64_3 [of "v div 64"] by simp
  moreover have "v div 64 div 64 = v div 4096" "v div 64 div 4096 = v div 262144"
    by (simp_all add: div_mult2_eq [symmetric])
  ultimately show ?thesis by simp
qed

lemma char_of_split: "b < 256 \<Longrightarrow> char_of (a * 256 + b :: nat) = char_of b"
proof -
  have "char_of (a * 256 + b) = char_of ((a * 256 + b) mod 256)" by (simp only: char_of_mod_256)
  then show ?thesis by simp
qed

lemma decode_group3:
  fixes a b c :: char
  defines "val \<equiv> (of_char a * 65536 + of_char b * 256 + of_char c :: nat)"
  defines "v' \<equiv> val div 64 ^ 3 mod 64 * 262144 + val div 64 ^ 2 mod 64 * 4096 + val div 64 ^ 1 mod 64 * 64 + val div 64 ^ 0 mod 64"
  shows "char_of (v' div 65536) = a" "char_of (v' div 256) = b" "char_of v' = c"
proof -
  have lt: "(of_char a :: nat) < 256" "(of_char b :: nat) < 256" "(of_char c :: nat) < 256" by simp_all
  have "val < 16777216" unfolding val_def using lt by linarith
  then have v': "v' = val" unfolding v'_def using digits64_4 [of val] by simp
  have "val div 65536 = of_char a" unfolding val_def using lt by linarith
  then show "char_of (v' div 65536) = a" by (simp add: v')
  have "val div 256 = of_char a * 256 + of_char b" unfolding val_def using lt by linarith
  then show "char_of (v' div 256) = b" using char_of_split [of "of_char b" "of_char a"] lt by (simp add: v')
  show "char_of v' = c" using char_of_split [of "of_char c" "of_char a * 256 + of_char b"] lt
    by (simp add: v' val_def algebra_simps)
qed

lemma decode_group2:
  fixes a b :: char
  defines "val \<equiv> (of_char a * 65536 + of_char b * 256 :: nat)"
  defines "v' \<equiv> val div 64 ^ 3 mod 64 * 4096 + val div 64 ^ 2 mod 64 * 64 + val div 64 ^ 1 mod 64"
  shows "char_of (v' div 1024) = a" "char_of (v' div 4) = b"
proof -
  have lt: "(of_char a :: nat) < 256" "(of_char b :: nat) < 256" by simp_all
  have w: "val div 64 = of_char a * 1024 + of_char b * 4" unfolding val_def by linarith
  have d: "val div 262144 = val div 64 div 4096" "val div 4096 = val div 64 div 64"
    by (simp_all add: div_mult2_eq [symmetric])
  have "v' = val div 64 mod 262144" unfolding v'_def using digits64_3 [of "val div 64"] d by simp
  also have "\<dots> = val div 64"
  proof -
    have "val div 64 < 262144" unfolding w using lt by linarith
    then show ?thesis by simp
  qed
  finally have v': "v' = of_char a * 1024 + of_char b * 4" using w by simp
  have "v' div 1024 = of_char a" unfolding v' using lt by linarith
  then show "char_of (v' div 1024) = a" by simp
  have "v' div 4 = of_char a * 256 + of_char b" unfolding v' by linarith
  then show "char_of (v' div 4) = b" using char_of_split [of "of_char b" "of_char a"] lt by simp
qed

lemma decode_group1:
  fixes a :: char
  defines "val \<equiv> (of_char a * 65536 :: nat)"
  defines "v' \<equiv> val div 64 ^ 3 mod 64 * 64 + val div 64 ^ 2 mod 64"
  shows "char_of (v' div 16) = a"
proof -
  have lt: "(of_char a :: nat) < 256" by simp
  have w: "val div 4096 = of_char a * 16" unfolding val_def by linarith
  have d: "val div 262144 = val div 4096 div 64"
    by (simp_all add: div_mult2_eq [symmetric])
  have "v' = val div 4096 mod 4096" unfolding v'_def using digits64_2 [of "val div 4096"] d by simp
  also have "\<dots> = val div 4096"
  proof -
    have "val div 4096 < 4096" unfolding w using lt by linarith
    then show ?thesis by simp
  qed
  finally have v': "v' = of_char a * 16" using w by simp
  have "v' div 16 = of_char a" unfolding v' by linarith
  then show ?thesis by simp
qed

lemma b64_Encode_Nil_iff: "b64_Encode B = [] \<longleftrightarrow> B = []"
  by (induction B rule: b64_Encode.induct) (simp_all add: Let_def)

lemma b64_roundtrip: "b64_Decode (b64_Encode B) = Some B"
proof (induction B rule: b64_Encode.induct)
  case (1 a b c rest)
  show ?case
    using 1 decode_group3 [of a b c]
    by (simp add: Let_def decodeMap_sextet sextet_ne_pad)
next
  case (2 a b)
  show ?case using decode_group2 [of a b]
    by (simp add: Let_def decodeMap_sextet sextet_ne_pad)
next
  case (3 a)
  show ?case using decode_group1 [of a]
    by (simp add: Let_def decodeMap_sextet sextet_ne_pad)
next
  case 4
  then show ?case by simp
qed

lemma b64_Encode_append:
  "length xs mod 3 = 0 \<Longrightarrow> b64_Encode (xs @ ys) = b64_Encode xs @ b64_Encode ys"
proof (induction xs rule: b64_Encode.induct)
  case (1 a b c rest)
  then show ?case by (simp add: Let_def)
qed simp_all


section \<open>The streaming encoder, for any writer\<close>

text \<open>Unfolding of the interior loop, one case at a time.\<close>

lemma block_props:
  assumes "3 \<le> length p"
  shows "0 < block p" "block p \<le> length p" "block p mod 3 = 0"
proof -
  have "length p mod 3 < 3" by simp
  then show "0 < block p" using assms unfolding block_def by (simp split: if_splits) linarith
  show "block p \<le> length p" unfolding block_def by simp
  show "block p mod 3 = 0" unfolding block_def by (simp add: mod_eq_0_iff_dvd dvd_minus_mod)
qed

lemma enc_interior_short:
  "length p < 3 \<Longrightarrow> enc_interior w e p n st = (Ret ((n + int (length p), None), e\<lparr>e_buf := p\<rparr>), st)"
  by (simp add: enc_interior.simps)

lemma enc_interior_hang:
  "3 \<le> length p \<Longrightarrow> w (b64_Encode (take (block p) p)) st = (Hang, st') \<Longrightarrow>
   enc_interior w e p n st = (Hang, st')"
  by (simp add: enc_interior.simps [of w e p n st] block_def)

lemma enc_interior_err:
  "3 \<le> length p \<Longrightarrow> w (b64_Encode (take (block p) p)) st = (Ret (k, Some err), st') \<Longrightarrow>
   enc_interior w e p n st = (Ret ((n, Some err), e\<lparr>e_err := Some err\<rparr>), st')"
  by (simp add: enc_interior.simps [of w e p n st] block_def)

lemma enc_interior_next:
  "3 \<le> length p \<Longrightarrow> w (b64_Encode (take (block p) p)) st = (Ret (k, None), st') \<Longrightarrow>
   enc_interior w e p n st = enc_interior w e (drop (block p) p) (n + int (block p)) st'"
  by (simp add: enc_interior.simps [of w e p n st] block_def)

text \<open>Induction on the length of the data, which every turn of the loop shortens.\<close>

lemma enc_interior_pres:
  assumes step: "\<forall>p s. P s \<longrightarrow> P (snd (w p s))"
  shows "P s \<Longrightarrow> P (snd (enc_interior w e p n s))"
proof (induction "length p" arbitrary: p n s rule: less_induct)
  case less
  show ?case
  proof (cases "3 \<le> length p")
    case False
    then show ?thesis using less.prems by (simp add: enc_interior_short)
  next
    case True
    obtain r st' where w: "w (b64_Encode (take (block p) p)) s = (r, st')" by force
    have P': "P st'" using step [rule_format, OF less.prems, of "b64_Encode (take (block p) p)"] w by simp
    have shorter: "length (drop (block p) p) < length p" using block_props [OF True] by simp
    show ?thesis
    proof (cases r)
      case Hang
      then show ?thesis using enc_interior_hang [OF True, of w s st'] w P' by simp
    next
      case (Ret v)
      then show ?thesis
        using enc_interior_err [OF True, of w s] enc_interior_next [OF True, of w s]
          w P' less.hyps [OF shorter P']
        by (cases v; cases "snd v") auto
    qed
  qed
qed

lemma enc_interior_hangs:
  assumes step: "\<forall>p s. P s \<longrightarrow> P (snd (w p s))"
      and hang: "\<forall>p s. P s \<longrightarrow> fst (w p s) = Hang \<longrightarrow> Q (snd (w p s))"
  shows "P s \<Longrightarrow> fst (enc_interior w e p n s) = Hang \<Longrightarrow> Q (snd (enc_interior w e p n s))"
proof (induction "length p" arbitrary: p n s rule: less_induct)
  case less
  show ?case
  proof (cases "3 \<le> length p")
    case False
    then show ?thesis using less.prems by (simp add: enc_interior_short)
  next
    case True
    obtain r st' where w: "w (b64_Encode (take (block p) p)) s = (r, st')" by force
    have P': "P st'" using step [rule_format, OF less.prems(1), of "b64_Encode (take (block p) p)"] w by simp
    have shorter: "length (drop (block p) p) < length p" using block_props [OF True] by simp
    show ?thesis
    proof (cases r)
      case Hang
      then show ?thesis
        using enc_interior_hang [OF True, of w s st'] w hang [rule_format, OF less.prems(1), of "b64_Encode (take (block p) p)"]
        by simp
    next
      case (Ret v)
      then show ?thesis
        using enc_interior_err [OF True, of w s] enc_interior_next [OF True, of w s]
          w less.hyps [OF shorter P'] less.prems(2)
        by (cases v; cases "snd v") auto
    qed
  qed
qed

lemma enc_interior_spec:
  assumes good: "\<forall>p s. G s \<longrightarrow> B (snd (w p s)) \<or>
                   (G (snd (w p s)) \<and> fst (w p s) = Ret (int (length p), None) \<and>
                    sent (snd (w p s)) = sent s @ p)"
      and bad: "\<forall>p s. B s \<longrightarrow> B (snd (w p s))"
  shows "G s \<Longrightarrow>
         B (snd (enc_interior w e p n s)) \<or>
         (G (snd (enc_interior w e p n s)) \<and>
          fst (enc_interior w e p n s) =
            Ret ((n + int (length p), None), e\<lparr>e_buf := drop (length p - length p mod 3) p\<rparr>) \<and>
          sent (snd (enc_interior w e p n s)) =
            sent s @ b64_Encode (take (length p - length p mod 3) p))"
proof (induction "length p" arbitrary: p n s rule: less_induct)
  case less
  show ?case
  proof (cases "3 \<le> length p")
    case False
    then have "length p mod 3 = length p" by simp
    then show ?thesis using False less.prems by (simp add: enc_interior_short)
  next
    case True
    let ?b = "block p"
    obtain r st' where w: "w (b64_Encode (take ?b p)) s = (r, st')" by force
    have bp: "0 < ?b" "?b \<le> length p" "?b mod 3 = 0" using block_props [OF True] by blast+
    have shorter: "length (drop ?b p) < length p" using bp by simp
    from good [rule_format, OF less.prems, of "b64_Encode (take ?b p)"] w
    consider (c_bad) "B st'" | (c_good) "G st'" "r = Ret (int (length (b64_Encode (take ?b p))), None)"
        "sent st' = sent s @ b64_Encode (take ?b p)"
      by auto
    then show ?thesis
    proof cases
      case c_bad
      have "B (snd (enc_interior w e p n s))"
      proof (cases r)
        case Hang
        then show ?thesis using enc_interior_hang [OF True, of w s st'] w c_bad by simp
      next
        case (Ret v)
        then show ?thesis
          using enc_interior_err [OF True, of w s] enc_interior_next [OF True, of w s]
            w c_bad enc_interior_pres [where P=B and w=w, OF bad c_bad]
          by (cases v; cases "snd v") auto
      qed
      then show ?thesis by simp
    next
      case c_good
      let ?p' = "drop ?b p"
      have eq: "enc_interior w e p n s = enc_interior w e ?p' (n + int ?b) st'"
        using enc_interior_next [OF True, of w s] w c_good(2) by simp
      have k: "length p - length p mod 3 = ?b + (length ?p' - length ?p' mod 3)"
      proof -
        define m where "m = length p - ?b"
        have L: "length p = ?b + m" using bp(2) by (simp add: m_def)
        obtain q where q: "?b = 3 * q" using bp(3) by (auto simp: mod_eq_0_iff_dvd)
        have "(?b + m) mod 3 = m mod 3" unfolding q by simp
        moreover have "m mod 3 \<le> m" by simp
        moreover have "length ?p' = m" by (simp add: m_def)
        ultimately show ?thesis using L by simp
      qed
      have tk: "take (length p - length p mod 3) p = take ?b p @ take (length ?p' - length ?p' mod 3) ?p'"
        unfolding k by (simp add: take_add)
      have dr: "drop (length p - length p mod 3) p = drop (length ?p' - length ?p' mod 3) ?p'"
        unfolding k by (simp add: add.commute)
      have enc: "b64_Encode (take (length p - length p mod 3) p)
                   = b64_Encode (take ?b p) @ b64_Encode (take (length ?p' - length ?p' mod 3) ?p')"
        unfolding tk using bp by (intro b64_Encode_append) (simp add: min_absorb2)
      have len: "n + int ?b + int (length ?p') = n + int (length p)" using bp by simp
      from less.hyps [OF shorter c_good(1), of "n + int ?b"]
      show ?thesis unfolding eq using c_good(3) enc dr len by auto
    qed
  qed
qed



lemma enc_Close_idle:
  "\<not> (e_err e = None \<and> e_buf e \<noteq> []) \<Longrightarrow> enc_Close w e st = (Ret (e_err e, e), st)"
  by (auto simp: enc_Close_def)

lemma enc_Close_flush:
  "e_err e = None \<Longrightarrow> e_buf e \<noteq> [] \<Longrightarrow> w (b64_Encode (e_buf e)) st = (r, st') \<Longrightarrow>
   enc_Close w e st =
     (case r of Hang \<Rightarrow> Hang | Ret (k, err) \<Rightarrow> Ret (err, e\<lparr>e_err := err, e_buf := []\<rparr>), st')"
  by (simp add: enc_Close_def split: outcome.splits prod.splits)

lemma enc_Close_pres:
  assumes step: "\<forall>p s. P s \<longrightarrow> P (snd (w p s))"
  shows "P s \<Longrightarrow> P (snd (enc_Close w e s))"
proof -
  assume P: "P s"
  show ?thesis
  proof (cases "e_err e = None \<and> e_buf e \<noteq> []")
    case False
    then show ?thesis using P by (simp add: enc_Close_idle)
  next
    case True
    obtain r st' where w: "w (b64_Encode (e_buf e)) s = (r, st')" by force
    have "P st'" using step [rule_format, OF P, of "b64_Encode (e_buf e)"] w by simp
    then show ?thesis using True w by (simp add: enc_Close_flush [of e w s r st'])
  qed
qed

lemma enc_Close_hangs:
  assumes hang: "\<forall>p s. P s \<longrightarrow> fst (w p s) = Hang \<longrightarrow> Q (snd (w p s))"
  shows "P s \<Longrightarrow> fst (enc_Close w e s) = Hang \<Longrightarrow> Q (snd (enc_Close w e s))"
proof -
  assume P: "P s" and H: "fst (enc_Close w e s) = Hang"
  show ?thesis
  proof (cases "e_err e = None \<and> e_buf e \<noteq> []")
    case False
    then show ?thesis using H by (simp add: enc_Close_idle)
  next
    case True
    obtain r st' where w: "w (b64_Encode (e_buf e)) s = (r, st')" by force
    have eq: "enc_Close w e s =
       (case r of Hang \<Rightarrow> Hang | Ret (k, err) \<Rightarrow> Ret (err, e\<lparr>e_err := err, e_buf := []\<rparr>), st')"
      using True w by (simp add: enc_Close_flush [of e w s r st'])
    have "r = Hang" using H unfolding eq by (cases r) (auto split: prod.splits)
    then have "Q st'" using hang [rule_format, OF P, of "b64_Encode (e_buf e)"] w by simp
    then show ?thesis unfolding eq by simp
  qed
qed

text \<open>The cases of \<open>encoder.Write\<close>.\<close>

lemma enc_Write_unfold:
  "enc_Write w e p st =
     (case e_err e of
        Some err \<Rightarrow> (Ret ((0, Some err), e), st)
      | None \<Rightarrow>
          if e_buf e \<noteq> [] then
            (if length (e_buf e @ take (lead e p) p) < 3
             then (Ret ((int (lead e p), None), e\<lparr>e_buf := e_buf e @ take (lead e p) p\<rparr>), st)
             else
               (case w (b64_Encode (e_buf e @ take (lead e p) p)) st of
                  (Hang, st') \<Rightarrow> (Hang, st')
                | (Ret (_, Some err), st') \<Rightarrow>
                    (Ret ((int (lead e p), Some err),
                          e\<lparr>e_err := Some err, e_buf := e_buf e @ take (lead e p) p\<rparr>), st')
                | (Ret (_, None), st') \<Rightarrow>
                    enc_interior w (e\<lparr>e_buf := []\<rparr>) (drop (lead e p) p) (int (lead e p)) st'))
          else enc_interior w e p 0 st)"
  by (simp only: enc_Write_def lead_def Let_def)

lemma enc_Write_sticky:
  "e_err e = Some err \<Longrightarrow> enc_Write w e p st = (Ret ((0, Some err), e), st)"
  by (simp add: enc_Write_unfold)

lemma enc_Write_direct:
  "e_err e = None \<Longrightarrow> e_buf e = [] \<Longrightarrow> enc_Write w e p st = enc_interior w e p 0 st"
  by (simp add: enc_Write_unfold)

lemma enc_Write_fill:
  "e_err e = None \<Longrightarrow> e_buf e \<noteq> [] \<Longrightarrow> length (e_buf e @ take (lead e p) p) < 3 \<Longrightarrow>
   enc_Write w e p st = (Ret ((int (lead e p), None), e\<lparr>e_buf := e_buf e @ take (lead e p) p\<rparr>), st)"
  by (simp add: enc_Write_unfold)


lemma enc_Write_group_hang:
  "e_err e = None \<Longrightarrow> e_buf e \<noteq> [] \<Longrightarrow> \<not> length (e_buf e @ take (lead e p) p) < 3 \<Longrightarrow>
   w (b64_Encode (e_buf e @ take (lead e p) p)) st = (Hang, st') \<Longrightarrow>
   enc_Write w e p st = (Hang, st')"
  by (simp add: enc_Write_unfold)

lemma enc_Write_group_err:
  "e_err e = None \<Longrightarrow> e_buf e \<noteq> [] \<Longrightarrow> \<not> length (e_buf e @ take (lead e p) p) < 3 \<Longrightarrow>
   w (b64_Encode (e_buf e @ take (lead e p) p)) st = (Ret (k, Some err), st') \<Longrightarrow>
   enc_Write w e p st =
     (Ret ((int (lead e p), Some err),
           e\<lparr>e_err := Some err, e_buf := e_buf e @ take (lead e p) p\<rparr>), st')"
  by (simp add: enc_Write_unfold)

lemma enc_Write_group_ok:
  "e_err e = None \<Longrightarrow> e_buf e \<noteq> [] \<Longrightarrow> \<not> length (e_buf e @ take (lead e p) p) < 3 \<Longrightarrow>
   w (b64_Encode (e_buf e @ take (lead e p) p)) st = (Ret (k, None), st') \<Longrightarrow>
   enc_Write w e p st =
     enc_interior w (e\<lparr>e_buf := []\<rparr>) (drop (lead e p) p) (int (lead e p)) st'"
  by (simp add: enc_Write_unfold)

lemma enc_Write_pres:
  assumes step: "\<forall>p s. P s \<longrightarrow> P (snd (w p s))"
  shows "P s \<Longrightarrow> P (snd (enc_Write w e p s))"
proof -
  assume P: "P s"
  consider (sticky) err where "e_err e = Some err"
    | (direct) "e_err e = None" "e_buf e = []"
    | (fill) "e_err e = None" "e_buf e \<noteq> []" "length (e_buf e @ take (lead e p) p) < 3"
    | (group) "e_err e = None" "e_buf e \<noteq> []" "\<not> length (e_buf e @ take (lead e p) p) < 3"
    by (cases "e_err e") auto
  then show ?thesis
  proof cases
    case sticky
    then show ?thesis using P by (simp add: enc_Write_sticky)
  next
    case direct
    have eq: "enc_Write w e p s = enc_interior w e p 0 s"
      using direct by (simp add: enc_Write_direct)
    show ?thesis unfolding eq by (rule enc_interior_pres [where P=P and w=w, OF step P])
  next
    case fill
    then show ?thesis using P by (simp add: enc_Write_fill)
  next
    case group
    obtain r st' where w: "w (b64_Encode (e_buf e @ take (lead e p) p)) s = (r, st')" by force
    have P': "P st'" using step [rule_format, OF P, of "b64_Encode (e_buf e @ take (lead e p) p)"] w by simp
    show ?thesis
    proof (cases r)
      case Hang
      show ?thesis using enc_Write_group_hang [of e p w s st', OF group w [unfolded Hang]] P' by simp
    next
      case (Ret v)
      obtain k oe where v: "v = (k, oe)" by force
      show ?thesis
      proof (cases oe)
        case None
        have eq: "enc_Write w e p s =
            enc_interior w (e\<lparr>e_buf := []\<rparr>) (drop (lead e p) p) (int (lead e p)) st'"
          by (rule enc_Write_group_ok [of e p w s k st', OF group w [unfolded Ret v None]])
        show ?thesis unfolding eq by (rule enc_interior_pres [where P=P and w=w, OF step P'])
      next
        case (Some err)
        show ?thesis using enc_Write_group_err [of e p w s k err st', OF group w [unfolded Ret v Some]] P' by simp
      qed
    qed
  qed
qed

lemma enc_Write_hangs:
  assumes step: "\<forall>p s. P s \<longrightarrow> P (snd (w p s))"
      and hang: "\<forall>p s. P s \<longrightarrow> fst (w p s) = Hang \<longrightarrow> Q (snd (w p s))"
  shows "P s \<Longrightarrow> fst (enc_Write w e p s) = Hang \<Longrightarrow> Q (snd (enc_Write w e p s))"
proof -
  assume P: "P s" and H: "fst (enc_Write w e p s) = Hang"
  consider (sticky) err where "e_err e = Some err"
    | (direct) "e_err e = None" "e_buf e = []"
    | (fill) "e_err e = None" "e_buf e \<noteq> []" "length (e_buf e @ take (lead e p) p) < 3"
    | (group) "e_err e = None" "e_buf e \<noteq> []" "\<not> length (e_buf e @ take (lead e p) p) < 3"
    by (cases "e_err e") auto
  then show ?thesis
  proof cases
    case sticky
    then show ?thesis using H by (simp add: enc_Write_sticky)
  next
    case direct
    have eq: "enc_Write w e p s = enc_interior w e p 0 s"
      using direct by (simp add: enc_Write_direct)
    show ?thesis
      using H unfolding eq by (rule enc_interior_hangs [where P=P and w=w and Q=Q, OF step hang P])
  next
    case fill
    then show ?thesis using H by (simp add: enc_Write_fill)
  next
    case group
    obtain r st' where w: "w (b64_Encode (e_buf e @ take (lead e p) p)) s = (r, st')" by force
    have P': "P st'" using step [rule_format, OF P, of "b64_Encode (e_buf e @ take (lead e p) p)"] w by simp
    show ?thesis
    proof (cases r)
      case Hang
      have "Q st'" using hang [rule_format, OF P, of "b64_Encode (e_buf e @ take (lead e p) p)"] w Hang by simp
      then show ?thesis using enc_Write_group_hang [of e p w s st', OF group w [unfolded Hang]] by simp
    next
      case (Ret v)
      obtain k oe where v: "v = (k, oe)" by force
      show ?thesis
      proof (cases oe)
        case None
        have eq: "enc_Write w e p s =
            enc_interior w (e\<lparr>e_buf := []\<rparr>) (drop (lead e p) p) (int (lead e p)) st'"
          by (rule enc_Write_group_ok [of e p w s k st', OF group w [unfolded Ret v None]])
        show ?thesis
          using H unfolding eq by (rule enc_interior_hangs [where P=P and w=w and Q=Q, OF step hang P'])
      next
        case (Some err)
        show ?thesis using enc_Write_group_err [of e p w s k err st', OF group w [unfolded Ret v Some]] H by simp
      qed
    qed
  qed
qed

lemma enc_Close_spec:
  assumes good: "\<forall>p s. G s \<longrightarrow> B (snd (w p s)) \<or>
                   (G (snd (w p s)) \<and> fst (w p s) = Ret (int (length p), None) \<and>
                    sent (snd (w p s)) = sent s @ p)"
      and G: "G s" and e: "e_err e = None"
  shows "B (snd (enc_Close w e s)) \<or>
         (G (snd (enc_Close w e s)) \<and>
          fst (enc_Close w e s) = Ret (None, e\<lparr>e_buf := []\<rparr>) \<and>
          sent (snd (enc_Close w e s)) = sent s @ b64_Encode (e_buf e))"
proof (cases "e_buf e = []")
  case True
  then show ?thesis using G e by (simp add: enc_Close_idle)
next
  case False
  obtain r st' where w: "w (b64_Encode (e_buf e)) s = (r, st')" by force
  have eq: "enc_Close w e s =
       (case r of Hang \<Rightarrow> Hang | Ret (k, err) \<Rightarrow> Ret (err, e\<lparr>e_err := err, e_buf := []\<rparr>), st')"
    using e False w by (simp add: enc_Close_flush [of e w s r st'])
  from good [rule_format, OF G, of "b64_Encode (e_buf e)"] w
  consider "B st'" | "G st'" "r = Ret (int (length (b64_Encode (e_buf e))), None)"
      "sent st' = sent s @ b64_Encode (e_buf e)"
    by auto
  then show ?thesis
  proof cases
    case 1
    then show ?thesis unfolding eq by simp
  next
    case 2
    have "e\<lparr>e_err := None, e_buf := []\<rparr> = e\<lparr>e_buf := []\<rparr>" using e by simp
    then show ?thesis unfolding eq using 2 by simp
  qed
qed

lemma enc_Write_spec:
  assumes good: "\<forall>p s. G s \<longrightarrow> B (snd (w p s)) \<or>
                   (G (snd (w p s)) \<and> fst (w p s) = Ret (int (length p), None) \<and>
                    sent (snd (w p s)) = sent s @ p)"
      and bad: "\<forall>p s. B s \<longrightarrow> B (snd (w p s))"
      and G: "G s" and e: "e_err e = None" and len: "length (e_buf e) < 3"
  shows "B (snd (enc_Write w e p s)) \<or>
         (G (snd (enc_Write w e p s)) \<and>
          (\<exists>e' X. fst (enc_Write w e p s) = Ret ((int (length p), None), e') \<and>
                  e_err e' = None \<and> length (e_buf e') < 3 \<and>
                  X @ e_buf e' = e_buf e @ p \<and> length X mod 3 = 0 \<and>
                  sent (snd (enc_Write w e p s)) = sent s @ b64_Encode X))"
proof -
  note interior = enc_interior_spec [where G=G and B=B and w=w and sent=sent, OF good bad]
  have tail: "\<And>q :: bytes. length (drop (length q - length q mod 3) q) < 3"
  proof -
    fix q :: bytes
    have "length q mod 3 < 3" by simp
    moreover have "length q mod 3 \<le> length q" by simp
    ultimately show "length (drop (length q - length q mod 3) q) < 3" by simp
  qed
  have whole: "\<And>q :: bytes. length (take (length q - length q mod 3) q) mod 3 = 0"
  proof -
    fix q :: bytes
    have "length (take (length q - length q mod 3) q) = length q - length q mod 3" by simp
    then show "length (take (length q - length q mod 3) q) mod 3 = 0"
      by (simp add: mod_eq_0_iff_dvd dvd_minus_mod)
  qed
  consider (direct) "e_buf e = []"
    | (fill) "e_buf e \<noteq> []" "length (e_buf e @ take (lead e p) p) < 3"
    | (group) "e_buf e \<noteq> []" "\<not> length (e_buf e @ take (lead e p) p) < 3"
    by auto
  then show ?thesis
  proof cases
    case direct
    have eq: "enc_Write w e p s = enc_interior w e p 0 s"
      using e direct by (simp add: enc_Write_direct)
    let ?k = "length p - length p mod 3"
    from interior [OF G, of e p 0]
    show ?thesis
    proof
      assume "B (snd (enc_interior w e p 0 s))"
      then show ?thesis unfolding eq by simp
    next
      assume A: "G (snd (enc_interior w e p 0 s)) \<and>
          fst (enc_interior w e p 0 s) = Ret ((0 + int (length p), None), e\<lparr>e_buf := drop ?k p\<rparr>) \<and>
          sent (snd (enc_interior w e p 0 s)) = sent s @ b64_Encode (take ?k p)"
      have "\<exists>e' X. fst (enc_interior w e p 0 s) = Ret ((int (length p), None), e') \<and>
                  e_err e' = None \<and> length (e_buf e') < 3 \<and>
                  X @ e_buf e' = e_buf e @ p \<and> length X mod 3 = 0 \<and>
                  sent (snd (enc_interior w e p 0 s)) = sent s @ b64_Encode X"
        apply (rule exI [of _ "e\<lparr>e_buf := drop ?k p\<rparr>"])
        apply (rule exI [of _ "take ?k p"])
        using A e direct tail [of p] whole [of p] by simp
      then show ?thesis unfolding eq using A by blast
    qed
  next
    case fill
    have eq: "enc_Write w e p s =
        (Ret ((int (lead e p), None), e\<lparr>e_buf := e_buf e @ take (lead e p) p\<rparr>), s)"
      using e fill by (simp add: enc_Write_fill)
    have lp: "lead e p = length p" using fill len unfolding lead_def by (auto simp: min_def split: if_splits)
    have "\<exists>e' X. fst (enc_Write w e p s) = Ret ((int (length p), None), e') \<and>
                  e_err e' = None \<and> length (e_buf e') < 3 \<and>
                  X @ e_buf e' = e_buf e @ p \<and> length X mod 3 = 0 \<and>
                  sent (snd (enc_Write w e p s)) = sent s @ b64_Encode X"
      apply (rule exI [of _ "e\<lparr>e_buf := e_buf e @ take (lead e p) p\<rparr>"])
      apply (rule exI [of _ "[]"])
      unfolding eq using e fill lp by simp
    moreover have "G (snd (enc_Write w e p s))" using G unfolding eq by simp
    ultimately show ?thesis by blast
  next
    case group
    let ?buf = "e_buf e @ take (lead e p) p"
    let ?q = "drop (lead e p) p"
    let ?k = "length ?q - length ?q mod 3"
    have l3: "length ?buf = 3" using group len unfolding lead_def by (auto simp: min_def split: if_splits)
    have lle: "lead e p \<le> length p" unfolding lead_def by simp
    obtain r st' where w: "w (b64_Encode ?buf) s = (r, st')" by force
    from good [rule_format, OF G, of "b64_Encode ?buf"] w
    consider (c_bad) "B st'" | (c_good) "G st'" "r = Ret (int (length (b64_Encode ?buf)), None)"
        "sent st' = sent s @ b64_Encode ?buf"
      by auto
    then show ?thesis
    proof cases
      case c_bad
      have "B (snd (enc_Write w e p s))"
      proof (cases r)
        case Hang
        show ?thesis
          using enc_Write_group_hang [of e p w s st', OF e group w [unfolded Hang]] c_bad by simp
      next
        case (Ret v)
        obtain k oe where v: "v = (k, oe)" by force
        show ?thesis
        proof (cases oe)
          case None
          have eq: "enc_Write w e p s =
              enc_interior w (e\<lparr>e_buf := []\<rparr>) ?q (int (lead e p)) st'"
            by (rule enc_Write_group_ok [of e p w s k st', OF e group w [unfolded Ret v None]])
          show ?thesis unfolding eq
            by (rule enc_interior_pres [where P=B and w=w, OF bad c_bad])
        next
          case (Some err)
          show ?thesis
            using enc_Write_group_err [of e p w s k err st', OF e group w [unfolded Ret v Some]] c_bad
            by simp
        qed
      qed
      then show ?thesis by simp
    next
      case c_good
      have eq: "enc_Write w e p s =
          enc_interior w (e\<lparr>e_buf := []\<rparr>) ?q (int (lead e p)) st'"
        by (rule enc_Write_group_ok [of e p w s _ st', OF e group w [unfolded c_good(2)]])
      from interior [OF c_good(1), of "e\<lparr>e_buf := []\<rparr>" ?q "int (lead e p)"]
      show ?thesis
      proof
        assume "B (snd (enc_interior w (e\<lparr>e_buf := []\<rparr>) ?q (int (lead e p)) st'))"
        then show ?thesis unfolding eq by simp
      next
        assume A: "G (snd (enc_interior w (e\<lparr>e_buf := []\<rparr>) ?q (int (lead e p)) st')) \<and>
          fst (enc_interior w (e\<lparr>e_buf := []\<rparr>) ?q (int (lead e p)) st') =
            Ret ((int (lead e p) + int (length ?q), None), e\<lparr>e_buf := []\<rparr>\<lparr>e_buf := drop ?k ?q\<rparr>) \<and>
          sent (snd (enc_interior w (e\<lparr>e_buf := []\<rparr>) ?q (int (lead e p)) st')) =
            sent st' @ b64_Encode (take ?k ?q)"
        have n: "int (lead e p) + int (length ?q) = int (length p)" using lle by simp
        have cat: "(?buf @ take ?k ?q) @ drop ?k ?q = e_buf e @ p"
          by (simp only: append_assoc append_take_drop_id)
        have m3: "length (?buf @ take ?k ?q) mod 3 = 0"
          using l3 whole [of ?q] by (simp only: length_append) presburger
        have enc: "b64_Encode (?buf @ take ?k ?q) = b64_Encode ?buf @ b64_Encode (take ?k ?q)"
          by (rule b64_Encode_append) (simp only: l3, simp)
        have "\<exists>e' X. fst (enc_interior w (e\<lparr>e_buf := []\<rparr>) ?q (int (lead e p)) st') =
                    Ret ((int (length p), None), e') \<and>
                  e_err e' = None \<and> length (e_buf e') < 3 \<and>
                  X @ e_buf e' = e_buf e @ p \<and> length X mod 3 = 0 \<and>
                  sent (snd (enc_interior w (e\<lparr>e_buf := []\<rparr>) ?q (int (lead e p)) st')) =
                    sent s @ b64_Encode X"
          apply (rule exI [of _ "e\<lparr>e_buf := drop ?k ?q\<rparr>"])
          apply (rule exI [of _ "?buf @ take ?k ?q"])
          using A e n cat m3 enc c_good(3) tail [of ?q] by simp
        then show ?thesis unfolding eq using A by blast
      qed
    qed
  qed
qed

section \<open>The option constructors\<close>

lemma buffer_Write_good:
  "\<forall>p s. True \<longrightarrow> False \<or>
     (True \<and> fst (buffer_Write p s) = Ret (int (length p), None) \<and>
      snd (buffer_Write p s) = s @ p)"
  by (simp add: buffer_Write_def)

text \<open>
  Claim C9.  The option constructor \<open>Name\<close> is total: for every input string it
  returns, never reaches the fatal branch, and its result is \<open>name=\<close> followed by
  the standard padded base64 encoding of the string.
\<close>

theorem Name_total: "Name name = Ret (Inr (''name='' @ b64_Encode name))"
proof -
  obtain r1 buf1 where w1: "enc_Write buffer_Write NewEncoder name [] = (r1, buf1)" by force
  have "False \<or>
         (True \<and>
          (\<exists>e' X. fst (enc_Write buffer_Write NewEncoder name []) = Ret ((int (length name), None), e') \<and>
                  e_err e' = None \<and> length (e_buf e') < 3 \<and>
                  X @ e_buf e' = e_buf NewEncoder @ name \<and> length X mod 3 = 0 \<and>
                  snd (enc_Write buffer_Write NewEncoder name []) = [] @ b64_Encode X))"
    by (rule enc_Write_spec [where G="\<lambda>_. True" and B="\<lambda>_. False" and sent="\<lambda>b. b"
          and w=buffer_Write, OF buffer_Write_good]) (simp_all add: NewEncoder_def)
  then obtain e' X where 1: "r1 = Ret ((int (length name), None), e')" "e_err e' = None"
      "X @ e_buf e' = name" "length X mod 3 = 0" "buf1 = b64_Encode X"
    using w1 by (auto simp: NewEncoder_def)
  obtain r2 buf2 where w2: "enc_Close buffer_Write e' buf1 = (r2, buf2)" by force
  have "False \<or>
         (True \<and>
          fst (enc_Close buffer_Write e' buf1) = Ret (None, e'\<lparr>e_buf := []\<rparr>) \<and>
          snd (enc_Close buffer_Write e' buf1) = buf1 @ b64_Encode (e_buf e'))"
    by (rule enc_Close_spec [where G="\<lambda>_. True" and B="\<lambda>_. False" and sent="\<lambda>b. b"
          and w=buffer_Write, OF buffer_Write_good]) (simp_all add: 1)
  then have 2: "r2 = Ret (None, e'\<lparr>e_buf := []\<rparr>)" "buf2 = buf1 @ b64_Encode (e_buf e')"
    using w2 by auto
  have "buf2 = b64_Encode name"
    using 1(3,4,5) 2(2) b64_Encode_append [of X "e_buf e'"] by simp
  then show ?thesis
    unfolding Name_def using w1 w2 1(1) 2(1) by simp
qed

section \<open>The drain loop and the pipe\<close>

lemma write_piece_effect:
  "\<exists>c. calls (write_piece snk sg piece s) = calls s @ [c] \<and> c_seg c = sg \<and> c_data c = piece \<and>
       fst (snk piece (dest s)) = (c_n c, c_err c) \<and>
       drain (write_piece snk sg piece s) =
         (case copy_error c of None \<Rightarrow> drain s | Some e \<Rightarrow> Returned (Some e)) \<and>
       werr (write_piece snk sg piece s) = werr s \<and> footer (write_piece snk sg piece s) = footer s \<and>
       b64 (write_piece snk sg piece s) = b64 s \<and> task (write_piece snk sg piece s) = task s \<and>
       reads (write_piece snk sg piece s) = reads s \<and> pw_ops (write_piece snk sg piece s) = pw_ops s"
proof -
  obtain nw ew d where r: "snk piece (dest s) = ((nw, ew), d)" by (metis surj_pair)
  show ?thesis
    by (rule exI [of _ "\<lparr>c_seg = sg, c_data = piece, c_n = nw, c_err = ew\<rparr>"])
       (simp add: write_piece_def r Let_def split: option.splits)
qed

lemma copy_data_stop:
  "avail = [] \<or> drain s \<noteq> Draining \<Longrightarrow> copy_data snk sg avail s = (avail, s)"
  by (simp add: copy_data.simps)

lemma copy_data_step:
  "avail \<noteq> [] \<Longrightarrow> drain s = Draining \<Longrightarrow>
   copy_data snk sg avail s =
     copy_data snk sg (drop copy_buf avail) (write_piece snk sg (take copy_buf avail) s)"
  by (simp add: copy_data.simps [of snk sg avail s])

lemma copy_data_grows:
  "drain s = Draining \<Longrightarrow> copy_data snk sg avail s = (rest, s') \<Longrightarrow> grows snk sg avail rest s s'"
proof (induction "length avail" arbitrary: avail s rule: less_induct)
  case less
  show ?case
  proof (cases "avail = []")
    case True
    then have "rest = []" "s' = s" using less.prems by (simp_all add: copy_data_stop)
    then show ?thesis using True less.prems(1) unfolding grows_def by simp
  next
    case False
    let ?s1 = "write_piece snk sg (take copy_buf avail) s"
    have eq: "copy_data snk sg (drop copy_buf avail) ?s1 = (rest, s')"
      using copy_data_step [OF False less.prems(1)] less.prems(2) by simp
    obtain c where c: "calls ?s1 = calls s @ [c]" "c_seg c = sg" "c_data c = take copy_buf avail"
        "fst (snk (take copy_buf avail) (dest s)) = (c_n c, c_err c)"
        "drain ?s1 = (case copy_error c of None \<Rightarrow> drain s | Some e \<Rightarrow> Returned (Some e))"
        "werr ?s1 = werr s" "footer ?s1 = footer s" "b64 ?s1 = b64 s" "task ?s1 = task s"
        "reads ?s1 = reads s" "pw_ops ?s1 = pw_ops s"
      using write_piece_effect [of snk sg "take copy_buf avail" s] by blast
    have snkc: "\<exists>d. fst (snk (c_data c) d) = (c_n c, c_err c)" using c(3,4) by metis
    show ?thesis
    proof (cases "copy_error c")
      case (Some e)
      then have d1: "drain ?s1 = Returned (Some e)" using c(5) by simp
      then have "rest = drop copy_buf avail" "s' = ?s1" using eq by (simp_all add: copy_data_stop)
      then show ?thesis unfolding grows_def
        apply (intro exI [of _ "[c]"])
        using c Some d1 snkc by simp
    next
      case None
      then have d1: "drain ?s1 = Draining" using c(5) less.prems(1) by simp
      have shorter: "length (drop copy_buf avail) < length avail"
        using False by (simp add: copy_buf_def)
      from less.hyps [OF shorter d1 eq]
      obtain cs where cs: "calls s' = calls ?s1 @ cs" "\<forall>c \<in> set cs. c_seg c = sg"
          "concat (map c_data cs) @ rest = drop copy_buf avail"
          "\<forall>c \<in> set (butlast cs). copy_error c = None"
          "case drain s' of
              Draining \<Rightarrow> rest = [] \<and> (\<forall>c \<in> set cs. copy_error c = None)
            | Returned r \<Rightarrow> cs \<noteq> [] \<and> r = copy_error (last cs) \<and> r \<noteq> None"
          "\<forall>c \<in> set cs. \<exists>d. fst (snk (c_data c) d) = (c_n c, c_err c)"
          "werr s' = werr ?s1" "footer s' = footer ?s1" "b64 s' = b64 ?s1" "task s' = task ?s1"
          "reads s' = reads ?s1" "pw_ops s' = pw_ops ?s1"
        unfolding grows_def by blast
      have data: "concat (map c_data (c # cs)) @ rest = avail"
        using cs(3) c(3) by (simp add: append_take_drop_id)
      have bl: "\<forall>x \<in> set (butlast (c # cs)). copy_error x = None"
        using cs(4) None by (auto simp: butlast.simps split: if_splits)
      have dr: "case drain s' of
              Draining \<Rightarrow> rest = [] \<and> (\<forall>x \<in> set (c # cs). copy_error x = None)
            | Returned r \<Rightarrow> c # cs \<noteq> [] \<and> r = copy_error (last (c # cs)) \<and> r \<noteq> None"
        using cs(5) None by (auto split: drain_state.splits)
      show ?thesis unfolding grows_def
        apply (intro exI [of _ "c # cs"])
        using cs(1,2,6-12) c(1,2,6-11) snkc data bl dr by simp
    qed
  qed
qed

lemma first_close_append:
  "first_close (ops @ [op]) =
     (case first_close ops of
        Some e \<Rightarrow> Some e
      | None \<Rightarrow> (case op of PClose e \<Rightarrow> Some e | PWrite p r \<Rightarrow> None))"
  by (induction ops rule: first_close.induct) (auto split: pipe_op.splits)

lemma quiet_append:
  "quiet (ops @ [op]) = (quiet ops \<and> (first_close ops \<noteq> None \<longrightarrow> rejected op))"
proof (induction ops rule: quiet.induct)
  case 1
  show ?case by (cases op) auto
qed auto

lemma part_append:
  "calls s' = calls s @ cs \<Longrightarrow>
   part sg s' = part sg s @ concat (map c_data (filter (\<lambda>c. c_seg c = sg) cs))"
  by (simp add: part_def)

lemma filter_same: "\<forall>c \<in> set cs. c_seg c = sg \<Longrightarrow> filter (\<lambda>c. c_seg c = sg) cs = cs"
  by (induction cs) auto

lemma filter_other:
  "\<forall>c \<in> set cs. c_seg c = sg \<Longrightarrow> sg' \<noteq> sg \<Longrightarrow> filter (\<lambda>c. c_seg c = sg') cs = []"
  by (induction cs) auto

lemma grows_part_other: "grows snk sg avail rest s s' \<Longrightarrow> sg' \<noteq> sg \<Longrightarrow> part sg' s' = part sg' s"
  unfolding grows_def by (auto simp: part_append filter_other)

lemma grows_part_same:
  "grows snk sg avail rest s s' \<Longrightarrow> drain s' = Draining \<Longrightarrow> part sg s' = part sg s @ avail"
  unfolding grows_def by (auto simp: part_append filter_same)

lemma grows_rest: "grows snk sg avail rest s s' \<Longrightarrow> drain s' = Draining \<Longrightarrow> rest = []"
  unfolding grows_def by auto

lemma grows_fields:
  "grows snk sg avail rest s s' \<Longrightarrow>
   werr s' = werr s \<and> footer s' = footer s \<and> b64 s' = b64 s \<and> task s' = task s \<and>
   reads s' = reads s \<and> pw_ops s' = pw_ops s"
  unfolding grows_def by auto

lemma grows_drain:
  "grows snk sg avail rest s s' \<Longrightarrow> drain s' = Draining \<or> (\<exists>e. drain s' = Returned (Some e))"
  unfolding grows_def by (cases "drain s'") auto

lemma grows_sink: "inv_sink snk s \<Longrightarrow> grows snk sg avail rest s s' \<Longrightarrow> inv_sink snk s'"
  unfolding grows_def inv_sink_def by auto

lemma grows_fail:
  assumes "inv_fail s" "drain s = Draining" "grows snk sg avail rest s s'"
  shows "inv_fail s'" "failed s' \<longleftrightarrow> drain s' \<noteq> Draining"
proof -
  from assms(3) obtain cs where cs: "calls s' = calls s @ cs"
      "\<forall>c \<in> set (butlast cs). copy_error c = None"
      "case drain s' of
              Draining \<Rightarrow> rest = [] \<and> (\<forall>c \<in> set cs. copy_error c = None)
            | Returned r \<Rightarrow> cs \<noteq> [] \<and> r = copy_error (last cs) \<and> r \<noteq> None"
    unfolding grows_def by blast
  have old: "\<forall>c \<in> set (calls s). copy_error c = None"
    using assms(1,2) unfolding inv_fail_def failed_def by auto
  show "failed s' \<longleftrightarrow> drain s' \<noteq> Draining"
  proof (cases "drain s'")
    case Draining
    then show ?thesis using cs old unfolding failed_def by auto
  next
    case (Returned r)
    then have "cs \<noteq> []" "copy_error (last cs) \<noteq> None" using cs(3) by auto
    then have "\<exists>c \<in> set cs. copy_error c \<noteq> None" using last_in_set by blast
    then show ?thesis using cs(1) Returned unfolding failed_def by auto
  qed
  show "inv_fail s'"
  proof (cases "cs = []")
    case True
    then have d: "drain s' = Draining" using cs(3) by (cases "drain s'") auto
    have eq: "calls s' = calls s" using True cs(1) by simp
    have 1: "\<forall>c \<in> set (butlast (calls s')). copy_error c = None"
      unfolding eq using old by (auto dest: in_set_butlastD)
    have 2: "\<not> failed s'" unfolding failed_def eq using old by simp
    have 3: "\<forall>e. calls s' \<noteq> [] \<and> copy_error (last (calls s')) = Some e \<longrightarrow>
           drain s' = Returned (Some e)"
    proof (intro allI impI)
      fix e assume a: "calls s' \<noteq> [] \<and> copy_error (last (calls s')) = Some e"
      then have "last (calls s) \<in> set (calls s)" unfolding eq by simp
      then have "copy_error (last (calls s)) = None" using old by blast
      then show "drain s' = Returned (Some e)" using a unfolding eq by simp
    qed
    show ?thesis unfolding inv_fail_def using 1 2 3 by blast
  next
    case False
    then have bl: "butlast (calls s') = calls s @ butlast cs" using cs(1) by (simp add: butlast_append)
    have la: "last (calls s') = last cs" using cs(1) False by simp
    show ?thesis
      unfolding inv_fail_def failed_def bl la
      using old cs False by (cases "drain s'") auto
  qed
qed

lemma grows_head:
  assumes "inv_head hdr s" "drain s = Draining" "sg \<noteq> Header" "grows snk sg avail rest s s'"
  shows "inv_head hdr s'"
  using assms grows_part_other [OF assms(4), of Header] unfolding inv_head_def by auto

lemma grows_order:
  assumes "inv_order s" "grows snk sg avail rest s s'" "sg \<noteq> Header"
      "sg = Body \<longrightarrow> werr s = None" "sg = Footer \<longrightarrow> werr s = Some None"
  shows "inv_order s'"
proof -
  from assms(2) obtain cs where cs: "calls s' = calls s @ cs" "\<forall>c \<in> set cs. c_seg c = sg"
      "werr s' = werr s"
    unfolding grows_def by blast
  have new: "sorted (map (\<lambda>c. rank (c_seg c)) cs)"
    using cs(2) by (induction cs) auto
  have le: "\<forall>x \<in> set (calls s). \<forall>y \<in> set cs. rank (c_seg x) \<le> rank (c_seg y)"
  proof (intro ballI)
    fix x y assume x: "x \<in> set (calls s)" and y: "y \<in> set cs"
    show "rank (c_seg x) \<le> rank (c_seg y)"
    proof (cases sg)
      case Header
      then show ?thesis using assms(3) by simp
    next
      case Body
      then have "c_seg x \<noteq> Footer" using assms(1,4) x unfolding inv_order_def by auto
      then show ?thesis using cs(2) y Body by (cases "c_seg x") auto
    next
      case Footer
      then show ?thesis using cs(2) y by (cases "c_seg x") auto
    qed
  qed
  have "sorted (map (\<lambda>c. rank (c_seg c)) (calls s'))"
    using assms(1) new le unfolding inv_order_def cs(1) by (auto simp: sorted_append)
  moreover have "(\<exists>c \<in> set (calls s'). c_seg c = Footer) \<longrightarrow> werr s' = Some None"
    using assms(1,3,4,5) cs unfolding inv_order_def by (cases sg) auto
  ultimately show ?thesis unfolding inv_order_def by simp
qed

lemma upd_simps [simp]:
  "part sg (s\<lparr>pw_ops := ops\<rparr>) = part sg s"
  "part sg (s\<lparr>b64 := e\<rparr>) = part sg s"
  "part sg (s\<lparr>task := t\<rparr>) = part sg s"
  "part sg (s\<lparr>reads := n\<rparr>) = part sg s"
  "part sg (s\<lparr>werr := we\<rparr>) = part sg s"
  "part sg (s\<lparr>drain := dr\<rparr>) = part sg s"
  "failed (s\<lparr>pw_ops := ops\<rparr>) = failed s"
  "failed (s\<lparr>b64 := e\<rparr>) = failed s"
  "failed (s\<lparr>task := t\<rparr>) = failed s"
  "failed (s\<lparr>reads := n\<rparr>) = failed s"
  "failed (s\<lparr>werr := we\<rparr>) = failed s"
  "failed (s\<lparr>drain := dr\<rparr>) = failed s"
  by (simp_all add: part_def failed_def)

lemma inv_order_upd [simp]:
  "inv_order (s\<lparr>pw_ops := ops\<rparr>) = inv_order s"
  "inv_order (s\<lparr>b64 := e\<rparr>) = inv_order s"
  "inv_order (s\<lparr>task := t\<rparr>) = inv_order s"
  "inv_order (s\<lparr>reads := n\<rparr>) = inv_order s"
  "inv_order (s\<lparr>drain := dr\<rparr>) = inv_order s"
  by (simp_all add: inv_order_def)

lemma inv_fail_upd [simp]:
  "inv_fail (s\<lparr>pw_ops := ops\<rparr>) = inv_fail s"
  "inv_fail (s\<lparr>b64 := e\<rparr>) = inv_fail s"
  "inv_fail (s\<lparr>task := t\<rparr>) = inv_fail s"
  "inv_fail (s\<lparr>reads := n\<rparr>) = inv_fail s"
  "inv_fail (s\<lparr>werr := we\<rparr>) = inv_fail s"
  by (simp_all add: inv_fail_def)

lemma inv_head_upd [simp]:
  "inv_head hdr (s\<lparr>pw_ops := ops\<rparr>) = inv_head hdr s"
  "inv_head hdr (s\<lparr>b64 := e\<rparr>) = inv_head hdr s"
  "inv_head hdr (s\<lparr>task := t\<rparr>) = inv_head hdr s"
  "inv_head hdr (s\<lparr>reads := n\<rparr>) = inv_head hdr s"
  "inv_head hdr (s\<lparr>werr := we\<rparr>) = inv_head hdr s"
  by (simp_all add: inv_head_def)

lemma inv_sink_upd [simp]:
  "inv_sink snk (s\<lparr>pw_ops := ops\<rparr>) = inv_sink snk s"
  "inv_sink snk (s\<lparr>b64 := e\<rparr>) = inv_sink snk s"
  "inv_sink snk (s\<lparr>task := t\<rparr>) = inv_sink snk s"
  "inv_sink snk (s\<lparr>reads := n\<rparr>) = inv_sink snk s"
  "inv_sink snk (s\<lparr>werr := we\<rparr>) = inv_sink snk s"
  "inv_sink snk (s\<lparr>drain := dr\<rparr>) = inv_sink snk s"
  by (simp_all add: inv_sink_def)

lemma inv_pipe_upd [simp]:
  "inv_pipe (s\<lparr>b64 := e\<rparr>) = inv_pipe s"
  "inv_pipe (s\<lparr>task := t\<rparr>) = inv_pipe s"
  "inv_pipe (s\<lparr>reads := n\<rparr>) = inv_pipe s"
  "inv_pipe (s\<lparr>drain := dr\<rparr>) = inv_pipe s"
  by (simp_all add: inv_pipe_def)

lemma inv_live_upd [simp]:
  "inv_live (s\<lparr>pw_ops := ops\<rparr>) = inv_live s"
  "inv_live (s\<lparr>b64 := e\<rparr>) = inv_live s"
  "inv_live (s\<lparr>reads := n\<rparr>) = inv_live s"
  by (simp_all add: inv_live_def)

lemma invar_upd [simp]:
  "invar snk hdr (s\<lparr>b64 := e\<rparr>) = invar snk hdr s"
  "invar snk hdr (s\<lparr>reads := n\<rparr>) = invar snk hdr s"
  by (simp_all add: invar_def)

lemma invar_task: "invar snk hdr s \<Longrightarrow> drain s \<noteq> Draining \<Longrightarrow> invar snk hdr (s\<lparr>task := t\<rparr>)"
  by (simp add: invar_def inv_live_def)

text \<open>The three cases of a write on the pipe.\<close>

lemma pipe_Write_closed:
  "werr s \<noteq> None \<Longrightarrow>
   pipe_Write snk p s =
     (Ret (0, Some ErrClosedPipe),
      s\<lparr>pw_ops := pw_ops s @ [PWrite p (Ret (0, Some ErrClosedPipe))]\<rparr>)"
  by (simp add: pipe_Write_def)

lemma pipe_Write_stalled:
  "werr s = None \<Longrightarrow> drain s \<noteq> Draining \<Longrightarrow>
   pipe_Write snk p s = (Hang, s\<lparr>pw_ops := pw_ops s @ [PWrite p Hang]\<rparr>)"
  by (simp add: pipe_Write_def)

lemma pipe_Write_taken:
  assumes "werr s = None" "drain s = Draining"
  shows "\<exists>rest s' r. copy_data snk Body p s = (rest, s') \<and> grows snk Body p rest s s' \<and>
           r = (if rest = [] then Ret (int (length p), None) else Hang) \<and>
           pipe_Write snk p s = (r, s'\<lparr>pw_ops := pw_ops s' @ [PWrite p r]\<rparr>)"
proof -
  obtain rest s' where c: "copy_data snk Body p s = (rest, s')" by force
  have "grows snk Body p rest s s'" by (rule copy_data_grows [OF assms(2) c])
  then show ?thesis using assms c by (simp add: pipe_Write_def Let_def)
qed

lemma pipe_Write_inv:
  assumes "invar snk hdr s"
  shows "invar snk hdr (snd (pipe_Write snk p s))"
proof -
  have I: "inv_order s" "inv_live s" "inv_fail s" "inv_head hdr s" "inv_pipe s" "inv_sink snk s"
    using assms unfolding invar_def by simp_all
  consider (closed) "werr s \<noteq> None" | (stalled) "werr s = None" "drain s \<noteq> Draining"
    | (taken) "werr s = None" "drain s = Draining"
    by blast
  then show ?thesis
  proof cases
    case closed
    then show ?thesis using I
      by (auto simp: pipe_Write_closed invar_def inv_pipe_def first_close_append quiet_append
            split: option.splits)
  next
    case stalled
    then show ?thesis using I
      by (auto simp: pipe_Write_stalled invar_def inv_pipe_def first_close_append quiet_append
            split: option.splits)
  next
    case taken
    from pipe_Write_taken [OF taken, of snk p]
    obtain rest s' r where g: "grows snk Body p rest s s'"
        and eq: "pipe_Write snk p s = (r, s'\<lparr>pw_ops := pw_ops s' @ [PWrite p r]\<rparr>)"
      by blast
    note f = grows_fields [OF g]
    have 1: "inv_order s'" using grows_order [OF I(1) g] taken by simp
    have 2: "inv_live s'" using I(2) f taken unfolding inv_live_def by simp
    have 3: "inv_fail s'" by (rule grows_fail(1) [OF I(3) taken(2) g])
    have 4: "inv_head hdr s'" using grows_head [OF I(4) taken(2) _ g] by simp
    have 5: "inv_pipe (s'\<lparr>pw_ops := pw_ops s' @ [PWrite p r]\<rparr>)"
      using I(5) f taken unfolding inv_pipe_def
      by (auto simp: first_close_append quiet_append split: option.splits)
    have 6: "inv_sink snk s'" by (rule grows_sink [OF I(6) g])
    show ?thesis unfolding eq invar_def using 1 2 3 4 5 6 by simp
  qed
qed

lemma pipe_Write_hang:
  "fst (pipe_Write snk p s) = Hang \<Longrightarrow> drain (snd (pipe_Write snk p s)) \<noteq> Draining"
proof -
  assume H: "fst (pipe_Write snk p s) = Hang"
  consider (closed) "werr s \<noteq> None" | (stalled) "werr s = None" "drain s \<noteq> Draining"
    | (taken) "werr s = None" "drain s = Draining"
    by blast
  then show ?thesis
  proof cases
    case closed
    then show ?thesis using H by (simp add: pipe_Write_closed)
  next
    case stalled
    then show ?thesis by (simp add: pipe_Write_stalled)
  next
    case taken
    from pipe_Write_taken [OF taken, of snk p]
    obtain rest s' r where g: "grows snk Body p rest s s'"
        and r: "r = (if rest = [] then Ret (int (length p), None) else Hang)"
        and eq: "pipe_Write snk p s = (r, s'\<lparr>pw_ops := pw_ops s' @ [PWrite p r]\<rparr>)"
      by blast
    have "rest \<noteq> []" using H r eq by (auto split: if_splits)
    then have "drain s' \<noteq> Draining" using grows_rest [OF g] by blast
    then show ?thesis unfolding eq by simp
  qed
qed

text \<open>Once the drain loop has returned, nothing changes what it returned or what was written.\<close>

lemma pipe_Write_after:
  "drain s \<noteq> Draining \<Longrightarrow>
   drain (snd (pipe_Write snk p s)) = drain s \<and> calls (snd (pipe_Write snk p s)) = calls s \<and>
   dest (snd (pipe_Write snk p s)) = dest s \<and> reads (snd (pipe_Write snk p s)) = reads s \<and>
   werr (snd (pipe_Write snk p s)) = werr s"
  by (cases "werr s = None") (simp_all add: pipe_Write_closed pipe_Write_stalled)

text \<open>The cases of a close of the pipe.\<close>

lemma pipe_Close_again:
  "werr s \<noteq> None \<Longrightarrow>
   pipe_CloseWithError snk err s = s\<lparr>pw_ops := pw_ops s @ [PClose err]\<rparr>"
  by (simp add: pipe_CloseWithError_def Let_def)

lemma pipe_Close_unread:
  "werr s = None \<Longrightarrow> drain s \<noteq> Draining \<Longrightarrow>
   pipe_CloseWithError snk err s = s\<lparr>pw_ops := pw_ops s @ [PClose err], werr := Some err\<rparr>"
  by (simp add: pipe_CloseWithError_def Let_def)

lemma pipe_Close_error:
  "werr s = None \<Longrightarrow> drain s = Draining \<Longrightarrow>
   pipe_CloseWithError snk (Some e) s =
     s\<lparr>pw_ops := pw_ops s @ [PClose (Some e)], werr := Some (Some e),
       drain := Returned (Some e)\<rparr>"
  by (simp add: pipe_CloseWithError_def Let_def)

lemma pipe_Close_eof:
  assumes "werr s = None" "drain s = Draining"
  defines "s2 \<equiv> s\<lparr>pw_ops := pw_ops s @ [PClose None], werr := Some None\<rparr>"
  shows "\<exists>rest s3. grows snk Footer (footer s) rest s2 s3 \<and>
           pipe_CloseWithError snk None s =
             (if drain s3 = Draining then s3\<lparr>drain := Returned None\<rparr> else s3)"
proof -
  obtain rest s3 where c: "copy_data snk Footer (footer s2) s2 = (rest, s3)" by force
  have d: "drain s2 = Draining" using assms(2) by (simp add: s2_def)
  have "grows snk Footer (footer s2) rest s2 s3" by (rule copy_data_grows [OF d c])
  moreover have "footer s2 = footer s" by (simp add: s2_def)
  ultimately show ?thesis using assms(1,2) c
    by (auto simp: pipe_CloseWithError_def Let_def s2_def)
qed

lemma pipe_Close_inv:
  assumes "invar snk hdr s"
  shows "invar snk hdr (pipe_CloseWithError snk err s)"
    and "drain (pipe_CloseWithError snk err s) \<noteq> Draining"
proof -
  have I: "inv_order s" "inv_live s" "inv_fail s" "inv_head hdr s" "inv_pipe s" "inv_sink snk s"
    using assms unfolding invar_def by simp_all
  consider (again) "werr s \<noteq> None" | (unread) "werr s = None" "drain s \<noteq> Draining"
    | (error) e where "werr s = None" "drain s = Draining" "err = Some e"
    | (eof) "werr s = None" "drain s = Draining" "err = None"
    by (cases err) blast+
  then have "invar snk hdr (pipe_CloseWithError snk err s) \<and>
             drain (pipe_CloseWithError snk err s) \<noteq> Draining"
  proof cases
    case again
    then show ?thesis using I
      by (auto simp: pipe_Close_again invar_def inv_pipe_def inv_live_def first_close_append
            quiet_append split: option.splits)
  next
    case unread
    have "inv_order (s\<lparr>pw_ops := pw_ops s @ [PClose err], werr := Some err\<rparr>)"
      using I(1) unread unfolding inv_order_def by auto
    then show ?thesis using I unread
      by (auto simp: pipe_Close_unread invar_def inv_pipe_def inv_live_def first_close_append
            quiet_append split: option.splits)
  next
    case error
    have o: "inv_order (s\<lparr>pw_ops := pw_ops s @ [PClose (Some e)], werr := Some (Some e),
                 drain := Returned (Some e)\<rparr>)"
      using I(1) error unfolding inv_order_def by auto
    have f: "inv_fail (s\<lparr>pw_ops := pw_ops s @ [PClose (Some e)], werr := Some (Some e),
                 drain := Returned (Some e)\<rparr>)"
    proof -
      have nf: "\<forall>c \<in> set (calls s). copy_error c = None"
        using I(3) error(2) unfolding inv_fail_def failed_def by auto
      then have "calls s \<noteq> [] \<longrightarrow> copy_error (last (calls s)) = None"
        using last_in_set by blast
      then show ?thesis using I(3) unfolding inv_fail_def failed_def by auto
    qed
    have h: "inv_head hdr (s\<lparr>pw_ops := pw_ops s @ [PClose (Some e)], werr := Some (Some e),
                 drain := Returned (Some e)\<rparr>)"
      using I(4) error(2) unfolding inv_head_def by (simp add: part_def)
    show ?thesis using I(5,6) o f h error
      by (auto simp: pipe_Close_error invar_def inv_pipe_def inv_live_def first_close_append
            quiet_append split: option.splits)
  next
    case eof
    let ?s2 = "s\<lparr>pw_ops := pw_ops s @ [PClose None], werr := Some None\<rparr>"
    from pipe_Close_eof [OF eof(1,2), of snk]
    obtain rest s3 where g: "grows snk Footer (footer s) rest ?s2 s3"
        and eq: "pipe_CloseWithError snk None s =
             (if drain s3 = Draining then s3\<lparr>drain := Returned None\<rparr> else s3)"
      by blast
    note fl = grows_fields [OF g]
    have o2: "inv_order ?s2" using I(1) eof unfolding inv_order_def by auto
    have f2: "inv_fail ?s2" using I(3) by simp
    have h2: "inv_head hdr ?s2" using I(4) by simp
    have k2: "inv_sink snk ?s2" using I(6) by simp
    have d2: "drain ?s2 = Draining" using eof by simp
    have o3: "inv_order s3" using grows_order [OF o2 g] by simp
    have f3: "inv_fail s3" by (rule grows_fail(1) [OF f2 d2 g])
    have h3: "inv_head hdr s3" using grows_head [OF h2 d2 _ g] by simp
    have k3: "inv_sink snk s3" by (rule grows_sink [OF k2 g])
    have p3: "inv_pipe s3"
      using I(5) fl eof unfolding inv_pipe_def
      by (auto simp: first_close_append quiet_append split: option.splits)
    have t3: "task s3 = task s" "werr s3 = Some None" using fl by simp_all
    show ?thesis
    proof (cases "drain s3 = Draining")
      case True
      have "inv_fail (s3\<lparr>drain := Returned None\<rparr>)"
      proof -
        have nf: "\<forall>c \<in> set (calls s3). copy_error c = None"
          using f3 True unfolding inv_fail_def failed_def by auto
        then have "calls s3 \<noteq> [] \<longrightarrow> copy_error (last (calls s3)) = None"
          using last_in_set by blast
        then show ?thesis using f3 unfolding inv_fail_def failed_def by auto
      qed
      moreover have "inv_head hdr (s3\<lparr>drain := Returned None\<rparr>)"
        using h3 True unfolding inv_head_def by simp
      ultimately show ?thesis
        unfolding eof(3) eq using True o3 k3 p3 t3
        by (simp add: invar_def inv_live_def)
    next
      case False
      then show ?thesis
        unfolding eof(3) eq using o3 f3 h3 k3 p3 t3
        by (simp add: invar_def inv_live_def)
    qed
  qed
  then show "invar snk hdr (pipe_CloseWithError snk err s)"
    and "drain (pipe_CloseWithError snk err s) \<noteq> Draining" by simp_all
qed

lemma pipe_Close_after:
  "drain s \<noteq> Draining \<Longrightarrow>
   drain (pipe_CloseWithError snk err s) = drain s \<and>
   calls (pipe_CloseWithError snk err s) = calls s \<and>
   dest (pipe_CloseWithError snk err s) = dest s \<and>
   reads (pipe_CloseWithError snk err s) = reads s \<and>
   (werr s \<noteq> None \<longrightarrow> werr (pipe_CloseWithError snk err s) = werr s)"
  by (cases "werr s = None") (simp_all add: pipe_Close_again pipe_Close_unread)

section \<open>Running the model\<close>

lemma enc_interior_long:
  "3 \<le> length p \<Longrightarrow>
   enc_interior w e p n st =
     (case w (b64_Encode (take (block p) p)) st of
        (Hang, st') \<Rightarrow> (Hang, st')
      | (Ret (_, Some err), st') \<Rightarrow> (Ret ((n, Some err), e\<lparr>e_err := Some err\<rparr>), st')
      | (Ret (_, None), st') \<Rightarrow> enc_interior w e (drop (block p) p) (n + int (block p)) st')"
proof -
  assume L: "3 \<le> length p"
  obtain r st' where w: "w (b64_Encode (take (block p) p)) st = (r, st')" by force
  show ?thesis
  proof (cases r)
    case Hang
    then show ?thesis using enc_interior_hang [OF L, of w st st'] w by simp
  next
    case (Ret v)
    obtain k oe where v: "v = (k, oe)" by force
    show ?thesis
    proof (cases oe)
      case None
      then show ?thesis using enc_interior_next [OF L, of w st k st'] w Ret v by simp
    next
      case (Some a)
      then show ?thesis using enc_interior_err [OF L, of w st k a st'] w Ret v by simp
    qed
  qed
qed

text \<open>The equations that run the model on a concrete input.\<close>

lemmas run_simps = Encode_def Encode_start_def build_header_def headerEscape_def
  footerEscape_def isTmux_def feed_def finish_def after_copy_def deferred_close_def
  pipe_Write_def pipe_CloseWithError_def enc_Write_def enc_Close_def copy_data_stop
  copy_data_step write_piece_def copy_error_def enc_interior_short enc_interior_long block_def
  NewEncoder_def Let_def buffer_sink_def closed_sink_def limited_sink_def copy_buf_def
  sextet_def encodeStd_def result_def written_def part_def plain_env_def tmux_env_def
  Inline_def boolToInt_def itoa_def dec_digits.simps Width_def Height_def Cells_def


section \<open>The invariants hold throughout an Encode call\<close>

lemma pipe_Write_step_inv:
  "\<forall>p s. invar snk hdr s \<longrightarrow> invar snk hdr (snd (pipe_Write snk p s))"
  using pipe_Write_inv by blast

lemma pipe_Write_step_hang:
  "\<forall>p s. invar snk hdr s \<longrightarrow> fst (pipe_Write snk p s) = Hang \<longrightarrow>
         drain (snd (pipe_Write snk p s)) \<noteq> Draining"
  using pipe_Write_hang by blast

lemma pipe_Write_step_settled:
  "\<forall>p s. settled s0 s \<longrightarrow> settled s0 (snd (pipe_Write snk p s))"
  using pipe_Write_after unfolding settled_def by metis

lemma settled_refl: "drain s \<noteq> Draining \<Longrightarrow> settled s s"
  by (simp add: settled_def)

lemma settled_upd [simp]:
  "settled s0 (s\<lparr>b64 := e\<rparr>) = settled s0 s"
  "settled s0 (s\<lparr>task := t\<rparr>) = settled s0 s"
  by (simp_all add: settled_def)

lemma pipe_Close_settled: "settled s0 s \<Longrightarrow> settled s0 (pipe_CloseWithError snk err s)"
  using pipe_Close_after [of s snk err] unfolding settled_def by simp

text \<open>The deferred function.\<close>

lemma deferred_close_cases:
  obtains (hang) s1 where "enc_Close (pipe_Write snk) (b64 s) s = (Hang, s1)"
      "deferred_close snk s = s1\<lparr>task := Stuck\<rparr>"
  | (err) e s1 err where "enc_Close (pipe_Write snk) (b64 s) s = (Ret (Some err, e), s1)"
      "deferred_close snk s = (pipe_CloseWithError snk (Some err) (s1\<lparr>b64 := e\<rparr>))\<lparr>task := Exited\<rparr>"
  | (ok) e s1 where "enc_Close (pipe_Write snk) (b64 s) s = (Ret (None, e), s1)"
      "deferred_close snk s = s1\<lparr>b64 := e, task := Exited\<rparr>"
proof -
  obtain r s1 where c: "enc_Close (pipe_Write snk) (b64 s) s = (r, s1)" by force
  show thesis
  proof (cases r)
    case Hang
    then show ?thesis using c hang by (simp add: deferred_close_def)
  next
    case (Ret v)
    obtain oe e where v: "v = (oe, e)" by force
    show ?thesis
    proof (cases oe)
      case None
      then show ?thesis using c Ret v ok by (simp add: deferred_close_def)
    next
      case (Some a)
      then show ?thesis using c Ret v err by (simp add: deferred_close_def)
    qed
  qed
qed

lemma enc_Close_pipe_inv:
  "invar snk hdr s \<Longrightarrow> enc_Close (pipe_Write snk) e s = (r, s1) \<Longrightarrow> invar snk hdr s1"
  using enc_Close_pres [where P="invar snk hdr" and w="pipe_Write snk" and e=e and s=s,
      OF pipe_Write_step_inv] by simp

lemma enc_Close_pipe_hang:
  "invar snk hdr s \<Longrightarrow> enc_Close (pipe_Write snk) e s = (Hang, s1) \<Longrightarrow> drain s1 \<noteq> Draining"
  using enc_Close_hangs [where P="invar snk hdr" and w="pipe_Write snk" and e=e and s=s
      and Q="\<lambda>s. drain s \<noteq> Draining", OF pipe_Write_step_hang] by simp

lemma enc_Close_pipe_settled:
  "settled s0 s \<Longrightarrow> enc_Close (pipe_Write snk) e s = (r, s1) \<Longrightarrow> settled s0 s1"
  using enc_Close_pres [where P="settled s0" and w="pipe_Write snk" and e=e and s=s,
      OF pipe_Write_step_settled] by simp

lemma enc_Write_pipe_inv:
  "invar snk hdr s \<Longrightarrow> enc_Write (pipe_Write snk) e p s = (r, s1) \<Longrightarrow> invar snk hdr s1"
  using enc_Write_pres [where P="invar snk hdr" and w="pipe_Write snk" and e=e and s=s and p=p,
      OF pipe_Write_step_inv] by simp

lemma enc_Write_pipe_hang:
  "invar snk hdr s \<Longrightarrow> enc_Write (pipe_Write snk) e p s = (Hang, s1) \<Longrightarrow> drain s1 \<noteq> Draining"
  using enc_Write_hangs [where P="invar snk hdr" and w="pipe_Write snk" and e=e and s=s and p=p
      and Q="\<lambda>s. drain s \<noteq> Draining", OF pipe_Write_step_inv pipe_Write_step_hang] by simp

lemma enc_Write_pipe_settled:
  "settled s0 s \<Longrightarrow> enc_Write (pipe_Write snk) e p s = (r, s1) \<Longrightarrow> settled s0 s1"
  using enc_Write_pres [where P="settled s0" and w="pipe_Write snk" and e=e and s=s and p=p,
      OF pipe_Write_step_settled] by simp

lemma deferred_close_settled:
  "settled s0 s \<Longrightarrow> settled s0 (deferred_close snk s)"
proof -
  assume S: "settled s0 s"
  show ?thesis
  proof (cases rule: deferred_close_cases [of snk s])
    case (hang s1)
    then show ?thesis using enc_Close_pipe_settled [OF S hang(1)] by simp
  next
    case (err e s1 er)
    have "settled s0 (s1\<lparr>b64 := e\<rparr>)" using enc_Close_pipe_settled [OF S err(1)] by simp
    then have "settled s0 (pipe_CloseWithError snk (Some er) (s1\<lparr>b64 := e\<rparr>))"
      by (rule pipe_Close_settled)
    then show ?thesis unfolding err(2) by simp
  next
    case (ok e s1)
    then show ?thesis using enc_Close_pipe_settled [OF S ok(1)] by simp
  qed
qed

lemma deferred_close_inv:
  assumes I: "invar snk hdr s" and D: "drain s \<noteq> Draining"
  shows "invar snk hdr (deferred_close snk s)"
proof -
  have S: "settled s s" using D by (rule settled_refl)
  have D': "drain (deferred_close snk s) \<noteq> Draining"
    using deferred_close_settled [OF S, of snk] unfolding settled_def by simp
  show ?thesis
  proof (cases rule: deferred_close_cases [of snk s])
    case (hang s1)
    have "invar snk hdr s1" by (rule enc_Close_pipe_inv [OF I hang(1)])
    moreover have "drain s1 \<noteq> Draining" by (rule enc_Close_pipe_hang [OF I hang(1)])
    ultimately show ?thesis unfolding hang(2) by (rule invar_task)
  next
    case (err e s1 er)
    have "invar snk hdr (s1\<lparr>b64 := e\<rparr>)" using enc_Close_pipe_inv [OF I err(1)] by simp
    then have "invar snk hdr (pipe_CloseWithError snk (Some er) (s1\<lparr>b64 := e\<rparr>))"
      and "drain (pipe_CloseWithError snk (Some er) (s1\<lparr>b64 := e\<rparr>)) \<noteq> Draining"
      by (rule pipe_Close_inv)+
    then show ?thesis unfolding err(2) by (rule invar_task)
  next
    case (ok e s1)
    have 1: "invar snk hdr (s1\<lparr>b64 := e\<rparr>)" using enc_Close_pipe_inv [OF I ok(1)] by simp
    have "settled s s1" by (rule enc_Close_pipe_settled [OF S ok(1)])
    then have 2: "drain (s1\<lparr>b64 := e\<rparr>) \<noteq> Draining" unfolding settled_def by simp
    have "invar snk hdr (s1\<lparr>b64 := e\<rparr>\<lparr>task := Exited\<rparr>)" by (rule invar_task [OF 1 2])
    then show ?thesis unfolding ok(2) by simp
  qed
qed

lemma after_copy_inv:
  assumes I: "invar snk hdr s"
  shows "invar snk hdr (after_copy snk err s)" and "drain (after_copy snk err s) \<noteq> Draining"
proof -
  have "invar snk hdr (after_copy snk err s) \<and> drain (after_copy snk err s) \<noteq> Draining"
  proof (cases err)
    case (Some e)
    let ?s1 = "pipe_CloseWithError snk (Some e) s"
    have 1: "invar snk hdr ?s1" and 2: "drain ?s1 \<noteq> Draining" using I by (rule pipe_Close_inv)+
    have "settled ?s1 (deferred_close snk ?s1)"
      by (rule deferred_close_settled [OF settled_refl [OF 2]])
    then show ?thesis using deferred_close_inv [OF 1 2] Some
      by (simp add: after_copy_def settled_def)
  next
    case None
    obtain r s1 where c: "enc_Close (pipe_Write snk) (b64 s) s = (r, s1)" by force
    have I1: "invar snk hdr s1" by (rule enc_Close_pipe_inv [OF I c])
    show ?thesis
    proof (cases r)
      case Hang
      have "drain s1 \<noteq> Draining" using enc_Close_pipe_hang [OF I] c Hang by simp
      then show ?thesis using None c Hang invar_task [OF I1]
        by (simp add: after_copy_def)
    next
      case (Ret v)
      obtain oe e where v: "v = (oe, e)" by force
      let ?s2 = "pipe_CloseWithError snk oe (s1\<lparr>b64 := e\<rparr>)"
      have "invar snk hdr (s1\<lparr>b64 := e\<rparr>)" using I1 by simp
      then have 1: "invar snk hdr ?s2" and 2: "drain ?s2 \<noteq> Draining" by (rule pipe_Close_inv)+
      have "settled ?s2 (deferred_close snk ?s2)"
        by (rule deferred_close_settled [OF settled_refl [OF 2]])
      then show ?thesis using deferred_close_inv [OF 1 2] None c Ret v
        by (simp add: after_copy_def settled_def)
    qed
  qed
  then show "invar snk hdr (after_copy snk err s)" and "drain (after_copy snk err s) \<noteq> Draining"
    by simp_all
qed

lemma feed_inv:
  assumes I: "invar snk hdr s"
  shows "invar snk hdr (feed snk chunk s)"
proof (cases "task s \<noteq> Copying \<or> chunk = []")
  case True
  then show ?thesis using I by (auto simp: feed_def Let_def)
next
  case False
  let ?s1 = "s\<lparr>reads := reads s + 1\<rparr>"
  have I1: "invar snk hdr ?s1" using I by simp
  obtain r s2 where c: "enc_Write (pipe_Write snk) (b64 ?s1) chunk ?s1 = (r, s2)" by force
  have I2: "invar snk hdr s2" by (rule enc_Write_pipe_inv [OF I1 c])
  show ?thesis
  proof (cases r)
    case Hang
    have "drain s2 \<noteq> Draining" using enc_Write_pipe_hang [OF I1] c Hang by simp
    then show ?thesis using False c Hang invar_task [OF I2] by (simp add: feed_def Let_def)
  next
    case (Ret v)
    obtain nw ew e where v: "v = ((nw, ew), e)" by (metis surj_pair)
    have I3: "invar snk hdr (s2\<lparr>b64 := e\<rparr>)" using I2 by simp
    show ?thesis
      using False c Ret v I3 after_copy_inv(1) [OF I3]
      by (simp add: feed_def Let_def)
  qed
qed

lemma finish_inv:
  assumes I: "invar snk hdr s"
  shows "invar snk hdr (finish snk fin s)" and "drain (finish snk fin s) \<noteq> Draining"
proof -
  have I1: "invar snk hdr (s\<lparr>reads := reads s + 1\<rparr>)" using I by simp
  show "invar snk hdr (finish snk fin s)"
    using I after_copy_inv(1) [OF I1] by (simp add: finish_def)
  show "drain (finish snk fin s) \<noteq> Draining"
    using I after_copy_inv(2) [OF I1] by (auto simp: finish_def invar_def inv_live_def)
qed

lemma feeds_inv:
  "invar snk hdr s \<Longrightarrow> invar snk hdr (foldl (\<lambda>s chunk. feed snk chunk s) s cs)"
  by (induction cs arbitrary: s) (simp_all add: feed_inv)

lemma Encode_start_grows:
  "\<exists>rest. grows (out enc) Header (build_header getenv (options enc)) rest
      \<lparr>dest = d, calls = [], drain = Draining, werr = None,
       footer = footerEscape getenv, b64 = NewEncoder, task = Copying,
       reads = 0, pw_ops = []\<rparr>
      (Encode_start getenv enc d)"
proof -
  let ?s0 = "\<lparr>dest = d, calls = [], drain = Draining, werr = None,
       footer = footerEscape getenv, b64 = NewEncoder, task = Copying,
       reads = 0, pw_ops = []\<rparr>"
  obtain rest s1 where c: "copy_data (out enc) Header (build_header getenv (options enc)) ?s0 = (rest, s1)"
    by force
  have "grows (out enc) Header (build_header getenv (options enc)) rest ?s0 s1"
    by (rule copy_data_grows [OF _ c]) simp
  then show ?thesis using c by (auto simp: Encode_start_def)
qed

lemma Encode_start_inv:
  "invar (out enc) (build_header getenv (options enc)) (Encode_start getenv enc d)"
proof -
  let ?s0 = "\<lparr>dest = d, calls = [], drain = Draining, werr = None,
       footer = footerEscape getenv, b64 = NewEncoder, task = Copying,
       reads = 0, pw_ops = []\<rparr>"
  let ?s1 = "Encode_start getenv enc d"
  let ?hdr = "build_header getenv (options enc)"
  obtain rest where g: "grows (out enc) Header ?hdr rest ?s0 ?s1"
    using Encode_start_grows [of enc getenv d] by blast
  note fl = grows_fields [OF g]
  from g obtain cs where cs: "calls ?s1 = cs" "\<forall>c \<in> set cs. c_seg c = Header"
    unfolding grows_def by auto
  have "map (\<lambda>c. rank (c_seg c)) cs = replicate (length cs) 0"
    using cs(2) by (induction cs) auto
  then have 1: "inv_order ?s1" using cs unfolding inv_order_def by (auto simp: sorted_replicate)
  have 2: "inv_live ?s1" using fl unfolding inv_live_def by simp
  have "inv_fail ?s0" unfolding inv_fail_def failed_def by simp
  then have 3: "inv_fail ?s1" by (rule grows_fail(1) [OF _ _ g]) simp
  have 4: "inv_head ?hdr ?s1"
    using grows_part_same [OF g] cs unfolding inv_head_def by (auto simp: part_def)
  have 5: "inv_pipe ?s1" using fl unfolding inv_pipe_def by simp
  have "inv_sink (out enc) ?s0" unfolding inv_sink_def by simp
  then have 6: "inv_sink (out enc) ?s1" by (rule grows_sink [OF _ g])
  show ?thesis unfolding invar_def using 1 2 3 4 5 6 by simp
qed

lemma Encode_inv:
  "invar (out enc) (build_header getenv (options enc)) (Encode getenv enc r d)"
  unfolding Encode_def by (rule finish_inv(1) [OF feeds_inv [OF Encode_start_inv]])

lemma Encode_returns: "\<exists>err. result (Encode getenv enc r d) = Ret err"
proof -
  have "drain (Encode getenv enc r d) \<noteq> Draining"
    unfolding Encode_def by (rule finish_inv(2) [OF feeds_inv [OF Encode_start_inv]])
  then show ?thesis unfolding result_def by (cases "drain (Encode getenv enc r d)") auto
qed

text \<open>
  Claim C6.  In every encode call the writes to the destination go from header to body
  to footer and never back: no body byte is written before header bytes or after footer
  bytes, and once anything but header bytes has been written the header is complete.
\<close>

theorem Encode_order:
  "sorted (map (\<lambda>c. rank (c_seg c)) (calls (Encode getenv enc r d))) \<and>
   ((\<exists>c \<in> set (calls (Encode getenv enc r d)). c_seg c \<noteq> Header) \<longrightarrow>
      part Header (Encode getenv enc r d) = build_header getenv (options enc))"
  using Encode_inv [of enc getenv r d] unfolding invar_def inv_order_def inv_head_def by blast

lemma copy_error_of_err: "c_err c = Some e \<Longrightarrow> copy_error c = Some e"
  by (simp add: copy_error_def)

theorem Encode_order_witness:
  "(\<exists>c \<in> set (calls (Encode plain_env \<lparr>out = buffer_sink, options = [Inline True]\<rparr>
                          \<lparr>chunks = [''ABCD''], final = None\<rparr> [])). c_seg c \<noteq> Header) \<and>
   sorted (map (\<lambda>c. rank (c_seg c))
             (calls (Encode plain_env \<lparr>out = buffer_sink, options = [Inline True]\<rparr>
                       \<lparr>chunks = [''ABCD''], final = None\<rparr> []))) \<and>
   part Header (Encode plain_env \<lparr>out = buffer_sink, options = [Inline True]\<rparr>
                  \<lparr>chunks = [''ABCD''], final = None\<rparr> [])
     = build_header plain_env [Inline True]"
proof -
  have "map c_seg (calls (Encode plain_env \<lparr>out = buffer_sink, options = [Inline True]\<rparr>
                          \<lparr>chunks = [''ABCD''], final = None\<rparr> [])) = [Header, Body, Body, Footer]"
    by (simp add: run_simps)
  then have "Body \<in> c_seg ` set (calls (Encode plain_env \<lparr>out = buffer_sink, options = [Inline True]\<rparr>
                          \<lparr>chunks = [''ABCD''], final = None\<rparr> []))"
    by (metis list.set_intros(1,2) set_map)
  then have "\<exists>c \<in> set (calls (Encode plain_env \<lparr>out = buffer_sink, options = [Inline True]\<rparr>
                          \<lparr>chunks = [''ABCD''], final = None\<rparr> [])). c_seg c \<noteq> Header"
    by force
  then show ?thesis
    using Encode_order [of plain_env "\<lparr>out = buffer_sink, options = [Inline True]\<rparr>"
                           "\<lparr>chunks = [''ABCD''], final = None\<rparr>" "[]"]
    by simp
qed


text \<open>
  Claim C7.  If a write to the destination fails during an encode, that write is the
  last one made on the destination, and \<open>Encode\<close> returns its error.
\<close>

theorem Encode_write_failure:
  assumes "calls (Encode getenv enc r d) = pre @ c # post" and "c_err c = Some e"
  shows "post = [] \<and> result (Encode getenv enc r d) = Ret (Some e)"
proof -
  let ?s = "Encode getenv enc r d"
  have F: "inv_fail ?s" using Encode_inv [of enc getenv r d] unfolding invar_def by simp
  have ce: "copy_error c = Some e" by (rule copy_error_of_err [OF assms(2)])
  have post: "post = []"
  proof (rule ccontr)
    assume "post \<noteq> []"
    then have "c \<in> set (butlast (calls ?s))" unfolding assms(1) by (simp add: butlast_append)
    then show False using F ce unfolding inv_fail_def by auto
  qed
  then have "calls ?s \<noteq> []" "last (calls ?s) = c" using assms(1) by simp_all
  then have "drain ?s = Returned (Some e)" using F ce unfolding inv_fail_def by blast
  then show ?thesis using post by (simp add: result_def)
qed

theorem Encode_write_failure_witness:
  "calls (Encode plain_env \<lparr>out = limited_sink 16, options = []\<rparr>
            \<lparr>chunks = [''ABCDEF''], final = None\<rparr> [])
     = [\<lparr>c_seg = Header, c_data = [ESC] @ '']1337;File=:'', c_n = 13, c_err = None\<rparr>]
       @ \<lparr>c_seg = Body, c_data = ''QUJDREVG'', c_n = 3,
           c_err = Some (Failure ''no space left on device'')\<rparr> # [] \<and>
   c_err \<lparr>c_seg = Body, c_data = ''QUJDREVG'', c_n = 3,
           c_err = Some (Failure ''no space left on device'')\<rparr>
     = Some (Failure ''no space left on device'') \<and>
   result (Encode plain_env \<lparr>out = limited_sink 16, options = []\<rparr>
            \<lparr>chunks = [''ABCDEF''], final = None\<rparr> [])
     = Ret (Some (Failure ''no space left on device''))"
proof -
  have c: "calls (Encode plain_env \<lparr>out = limited_sink 16, options = []\<rparr>
            \<lparr>chunks = [''ABCDEF''], final = None\<rparr> [])
     = [\<lparr>c_seg = Header, c_data = [ESC] @ '']1337;File=:'', c_n = 13, c_err = None\<rparr>]
       @ \<lparr>c_seg = Body, c_data = ''QUJDREVG'', c_n = 3,
           c_err = Some (Failure ''no space left on device'')\<rparr> # []"
    by (simp add: run_simps)
  show ?thesis
    using c Encode_write_failure [OF c, of "Failure ''no space left on device''"]
    by simp
qed

section \<open>What an Encode call writes\<close>

lemma feeding_upd [simp]:
  "feeding hdr ftr n (s\<lparr>b64 := e\<rparr>) = feeding hdr ftr n s"
  "feeding hdr ftr n (s\<lparr>pw_ops := ops\<rparr>) = feeding hdr ftr n s"
  by (simp_all add: feeding_def)

lemma feeding_reads: "feeding hdr ftr n s \<Longrightarrow> feeding hdr ftr m (s\<lparr>reads := m\<rparr>)"
  by (simp add: feeding_def)

lemma broken_upd [simp]:
  "broken (s\<lparr>b64 := e\<rparr>) = broken s"
  "broken (s\<lparr>pw_ops := ops\<rparr>) = broken s"
  "broken (s\<lparr>task := t\<rparr>) = broken s"
  "broken (s\<lparr>reads := n\<rparr>) = broken s"
  by (simp_all add: broken_def)

lemma broken_settled: "broken s0 \<Longrightarrow> settled s0 s \<Longrightarrow> broken s"
  by (simp add: broken_def settled_def failed_def)

lemma pipe_Write_broken: "\<forall>p s. broken s \<longrightarrow> broken (snd (pipe_Write snk p s))"
  using pipe_Write_after unfolding broken_def failed_def by metis

lemma pipe_Write_good:
  "\<forall>p s. feeding hdr ftr n s \<longrightarrow>
     broken (snd (pipe_Write snk p s)) \<or>
     (feeding hdr ftr n (snd (pipe_Write snk p s)) \<and>
      fst (pipe_Write snk p s) = Ret (int (length p), None) \<and>
      part Body (snd (pipe_Write snk p s)) = part Body s @ p)"
proof (intro allI impI)
  fix p and s :: "'a pipeline"
  assume F: "feeding hdr ftr n s"
  then have w: "werr s = None" and d: "drain s = Draining" and f: "inv_fail s"
    unfolding feeding_def by simp_all
  from pipe_Write_taken [OF w d, of snk p]
  obtain rest s' r where g: "grows snk Body p rest s s'"
      and r: "r = (if rest = [] then Ret (int (length p), None) else Hang)"
      and eq: "pipe_Write snk p s = (r, s'\<lparr>pw_ops := pw_ops s' @ [PWrite p r]\<rparr>)"
    by blast
  note fl = grows_fields [OF g]
  show "broken (snd (pipe_Write snk p s)) \<or>
     (feeding hdr ftr n (snd (pipe_Write snk p s)) \<and>
      fst (pipe_Write snk p s) = Ret (int (length p), None) \<and>
      part Body (snd (pipe_Write snk p s)) = part Body s @ p)"
  proof (cases "drain s' = Draining")
    case False
    then have "failed s'" using grows_fail(2) [OF f d g] by simp
    then show ?thesis unfolding eq using False by (simp add: broken_def)
  next
    case True
    have "rest = []" by (rule grows_rest [OF g True])
    moreover have "part Body s' = part Body s @ p" by (rule grows_part_same [OF g True])
    moreover have "part Header s' = part Header s" "part Footer s' = part Footer s"
      using grows_part_other [OF g] by simp_all
    moreover have "inv_fail s'" by (rule grows_fail(1) [OF f d g])
    ultimately show ?thesis unfolding eq using r True F fl by (simp add: feeding_def)
  qed
qed

lemma after_copy_settled: "settled s0 s \<Longrightarrow> settled s0 (after_copy snk err s)"
proof -
  assume S: "settled s0 s"
  show ?thesis
  proof (cases err)
    case (Some e)
    then show ?thesis
      using deferred_close_settled [OF pipe_Close_settled [OF S]] by (simp add: after_copy_def)
  next
    case None
    obtain r s1 where c: "enc_Close (pipe_Write snk) (b64 s) s = (r, s1)" by force
    have S1: "settled s0 s1" by (rule enc_Close_pipe_settled [OF S c])
    show ?thesis
    proof (cases r)
      case Hang
      then show ?thesis using None c S1 by (simp add: after_copy_def)
    next
      case (Ret v)
      obtain oe e where v: "v = (oe, e)" by force
      have "settled s0 (s1\<lparr>b64 := e\<rparr>)" using S1 by simp
      then have "settled s0 (deferred_close snk (pipe_CloseWithError snk oe (s1\<lparr>b64 := e\<rparr>)))"
        by (intro deferred_close_settled pipe_Close_settled)
      then show ?thesis using None c Ret v by (simp add: after_copy_def)
    qed
  qed
qed

lemma after_copy_broken: "broken s \<Longrightarrow> broken (after_copy snk err s)"
proof -
  assume B: "broken s"
  then have "settled s s" unfolding broken_def by (intro settled_refl) simp
  then have "settled s (after_copy snk err s)" by (rule after_copy_settled)
  then show ?thesis by (rule broken_settled [OF B])
qed

lemma enc_Write_pipe_broken:
  "broken s \<Longrightarrow> enc_Write (pipe_Write snk) e p s = (r, s1) \<Longrightarrow> broken s1"
  using enc_Write_pres [where P=broken and w="pipe_Write snk" and e=e and s=s and p=p,
      OF pipe_Write_broken] by simp

lemma feed_broken: "broken s \<Longrightarrow> broken (feed snk chunk s)"
proof -
  assume B: "broken s"
  show ?thesis
  proof (cases "task s \<noteq> Copying \<or> chunk = []")
    case True
    then show ?thesis using B by (auto simp: feed_def Let_def)
  next
    case False
    let ?s1 = "s\<lparr>reads := reads s + 1\<rparr>"
    have B1: "broken ?s1" using B by simp
    obtain r s2 where c: "enc_Write (pipe_Write snk) (b64 ?s1) chunk ?s1 = (r, s2)" by force
    have B2: "broken s2" by (rule enc_Write_pipe_broken [OF B1 c])
    show ?thesis
    proof (cases r)
      case Hang
      then show ?thesis using False c B2 by (simp add: feed_def Let_def)
    next
      case (Ret v)
      obtain nw ew e where v: "v = ((nw, ew), e)" by (metis surj_pair)
      have B3: "broken (s2\<lparr>b64 := e\<rparr>)" using B2 by simp
      show ?thesis
        using False c Ret v B3 after_copy_broken [OF B3]
        by (simp add: feed_def Let_def)
    qed
  qed
qed

lemma finish_broken: "broken s \<Longrightarrow> broken (finish snk fin s)"
  using after_copy_broken [of "s\<lparr>reads := reads s + 1\<rparr>" snk fin] by (simp add: finish_def)

lemma feeds_broken: "broken s \<Longrightarrow> broken (foldl (\<lambda>s chunk. feed snk chunk s) s cs)"
  by (induction cs arbitrary: s) (simp_all add: feed_broken)

lemma feed_fed:
  assumes F: "fed hdr ftr n inp s"
  shows "broken (feed snk chunk s) \<or> fed hdr ftr (n + 1) (inp @ chunk) (feed snk chunk s)"
proof (cases "chunk = []")
  case True
  have "task s = Copying" using F unfolding fed_def feeding_def by simp
  then have "feed snk chunk s = s\<lparr>reads := reads s + 1\<rparr>" using True by (simp add: feed_def Let_def)
  moreover have "fed hdr ftr (n + 1) inp (s\<lparr>reads := reads s + 1\<rparr>)"
    using F unfolding fed_def feeding_def by simp
  ultimately show ?thesis using True by simp
next
  case False
  let ?s1 = "s\<lparr>reads := reads s + 1\<rparr>"
  let ?e = "b64 ?s1"
  have t: "task s = Copying" using F unfolding fed_def feeding_def by simp
  have F1: "feeding hdr ftr (n + 1) ?s1" using F unfolding fed_def feeding_def by simp
  have e: "e_err ?e = None" "length (e_buf ?e) < 3" using F unfolding fed_def by simp_all
  obtain X where X: "X @ e_buf ?e = inp" "length X mod 3 = 0" "part Body ?s1 = b64_Encode X"
    using F unfolding fed_def by auto
  obtain r s2 where c: "enc_Write (pipe_Write snk) ?e chunk ?s1 = (r, s2)" by force
  from enc_Write_spec [where G="feeding hdr ftr (n + 1)" and B=broken and w="pipe_Write snk"
      and sent="part Body" and s="?s1" and e="?e" and p=chunk,
      OF pipe_Write_good pipe_Write_broken F1 e]
  consider (bad) "broken s2"
    | (good) e' Y where "feeding hdr ftr (n + 1) s2" "r = Ret ((int (length chunk), None), e')"
        "e_err e' = None" "length (e_buf e') < 3" "Y @ e_buf e' = e_buf ?e @ chunk"
        "length Y mod 3 = 0" "part Body s2 = part Body ?s1 @ b64_Encode Y"
    using c by auto
  then show ?thesis
  proof cases
    case bad
    have "broken (feed snk chunk s)"
    proof (cases r)
      case Hang
      then show ?thesis using False t c bad by (simp add: feed_def Let_def)
    next
      case (Ret v)
      obtain nw ew e2 where v: "v = ((nw, ew), e2)" by (metis surj_pair)
      have B3: "broken (s2\<lparr>b64 := e2\<rparr>)" using bad by simp
      show ?thesis
        using False t c Ret v B3 after_copy_broken [OF B3]
        by (simp add: feed_def Let_def)
    qed
    then show ?thesis by simp
  next
    case good
    have eq: "feed snk chunk s = s2\<lparr>b64 := e'\<rparr>"
      using False t c good(2) by (simp add: feed_def Let_def)
    have body: "part Body s2 = b64_Encode (X @ Y)"
      using good(7) X(3) b64_Encode_append [OF X(2), of Y] by simp
    have cat: "(X @ Y) @ e_buf e' = inp @ chunk" using good(5) X(1) by (metis append_assoc)
    have m3: "length (X @ Y) mod 3 = 0" using X(2) good(6) by (simp only: length_append) presburger
    have "\<exists>Z. Z @ e_buf e' = inp @ chunk \<and> length Z mod 3 = 0 \<and> part Body s2 = b64_Encode Z"
      by (rule exI [of _ "X @ Y"]) (intro conjI cat m3 body)
    then have "fed hdr ftr (n + 1) (inp @ chunk) (s2\<lparr>b64 := e'\<rparr>)"
      unfolding fed_def using good(1,3,4) by simp
    then show ?thesis unfolding eq by simp
  qed
qed

lemma feeds_fed:
  "fed hdr ftr n inp s \<Longrightarrow>
   broken (foldl (\<lambda>s chunk. feed snk chunk s) s cs) \<or>
   fed hdr ftr (n + length cs) (inp @ concat cs) (foldl (\<lambda>s chunk. feed snk chunk s) s cs)"
proof (induction cs arbitrary: s n inp)
  case Nil
  then show ?case by simp
next
  case (Cons c cs)
  from feed_fed [OF Cons.prems, of snk c]
  show ?case
  proof
    assume "broken (feed snk c s)"
    then show ?thesis using feeds_broken [of "feed snk c s" snk cs] by simp
  next
    assume "fed hdr ftr (n + 1) (inp @ c) (feed snk c s)"
    from Cons.IH [OF this] show ?thesis by simp
  qed
qed

lemma settled_same:
  "settled s0 s \<Longrightarrow> part sg s = part sg s0 \<and> failed s = failed s0"
  by (simp add: settled_def part_def failed_def)

lemma done_ok_settled: "done_ok hdr ftr n inp s0 \<Longrightarrow> settled s0 s \<Longrightarrow> done_ok hdr ftr n inp s"
  using settled_same [of s0 s] by (simp add: done_ok_def settled_def)

lemma done_err_settled: "done_err e hdr n s0 \<Longrightarrow> settled s0 s \<Longrightarrow> done_err e hdr n s"
  using settled_same [of s0 s] by (simp add: done_err_def settled_def)

lemma enc_Close_pipe_broken:
  "broken s \<Longrightarrow> enc_Close (pipe_Write snk) e s = (r, s1) \<Longrightarrow> broken s1"
  using enc_Close_pres [where P=broken and w="pipe_Write snk" and e=e and s=s,
      OF pipe_Write_broken] by simp

lemma close_eof_fed:
  assumes F: "feeding hdr ftr n s" and B: "part Body s = b64_Encode inp"
  shows "broken (pipe_CloseWithError snk None s) \<or>
         done_ok hdr ftr n inp (pipe_CloseWithError snk None s)"
proof -
  have w: "werr s = None" and d: "drain s = Draining" and f: "inv_fail s"
    and ft: "footer s = ftr"
    using F unfolding feeding_def by simp_all
  let ?s2 = "s\<lparr>pw_ops := pw_ops s @ [PClose None], werr := Some None\<rparr>"
  from pipe_Close_eof [OF w d, of snk]
  obtain rest s3 where g: "grows snk Footer (footer s) rest ?s2 s3"
      and eq: "pipe_CloseWithError snk None s =
             (if drain s3 = Draining then s3\<lparr>drain := Returned None\<rparr> else s3)"
    by blast
  note fl = grows_fields [OF g]
  have f2: "inv_fail ?s2" using f by simp
  have d2: "drain ?s2 = Draining" using d by simp
  show ?thesis
  proof (cases "drain s3 = Draining")
    case False
    then have "failed s3" using grows_fail(2) [OF f2 d2 g] by simp
    then show ?thesis unfolding eq using False by (simp add: broken_def)
  next
    case True
    have nf: "\<not> failed s3" using grows_fail(2) [OF f2 d2 g] True by simp
    have "part Footer s3 = part Footer ?s2 @ footer s" by (rule grows_part_same [OF g True])
    moreover have "part Header s3 = part Header ?s2" "part Body s3 = part Body ?s2"
      using grows_part_other [OF g] by simp_all
    ultimately show ?thesis
      unfolding eq using True nf fl F B by (simp add: done_ok_def feeding_def)
  qed
qed

lemma finish_fed:
  assumes F: "fed hdr ftr n inp s"
  shows "broken (finish snk fin s) \<or>
         (case fin of
            None \<Rightarrow> done_ok hdr ftr (n + 1) inp (finish snk fin s)
          | Some e \<Rightarrow> done_err e hdr (n + 1) (finish snk fin s))"
proof -
  let ?s1 = "s\<lparr>reads := reads s + 1\<rparr>"
  have t: "task s = Copying" using F unfolding fed_def feeding_def by simp
  have eqf: "\<And>f. finish snk f s = after_copy snk f ?s1" using t by (simp add: finish_def)
  have F1: "feeding hdr ftr (n + 1) ?s1" using F unfolding fed_def feeding_def by simp
  have e: "e_err (b64 ?s1) = None" using F unfolding fed_def by simp
  obtain X where X: "X @ e_buf (b64 ?s1) = inp" "length X mod 3 = 0" "part Body ?s1 = b64_Encode X"
    using F unfolding fed_def by auto
  show ?thesis
  proof (cases fin)
    case (Some er)
    have w: "werr ?s1 = None" and d: "drain ?s1 = Draining" and f: "inv_fail ?s1"
      using F1 unfolding feeding_def by simp_all
    let ?s2 = "pipe_CloseWithError snk (Some er) ?s1"
    have nf: "\<not> failed ?s1" using f d unfolding inv_fail_def by simp
    have "done_err er hdr (n + 1) ?s2"
      using F1 nf unfolding pipe_Close_error [OF w d] done_err_def feeding_def by simp
    moreover have "settled ?s2 (deferred_close snk ?s2)"
    proof (rule deferred_close_settled [OF settled_refl])
      show "drain ?s2 \<noteq> Draining" unfolding pipe_Close_error [OF w d] by simp
    qed
    ultimately have "done_err er hdr (n + 1) (deferred_close snk ?s2)"
      by (rule done_err_settled)
    then show ?thesis unfolding Some eqf by (simp add: after_copy_def)
  next
    case None
    obtain r s2 where c: "enc_Close (pipe_Write snk) (b64 ?s1) ?s1 = (r, s2)" by force
    from enc_Close_spec [where G="feeding hdr ftr (n + 1)" and B=broken and w="pipe_Write snk"
        and sent="part Body" and s="?s1" and e="b64 ?s1", OF pipe_Write_good F1 e]
    consider (bad) "broken s2"
      | (good) "feeding hdr ftr (n + 1) s2" "r = Ret (None, (b64 ?s1)\<lparr>e_buf := []\<rparr>)"
          "part Body s2 = part Body ?s1 @ b64_Encode (e_buf (b64 ?s1))"
      using c by auto
    then show ?thesis
    proof cases
      case bad
      have "broken (after_copy snk None ?s1)"
      proof (cases r)
        case Hang
        then show ?thesis using c bad by (simp add: after_copy_def)
      next
        case (Ret v)
        obtain oe e2 where v: "v = (oe, e2)" by force
        let ?s3 = "pipe_CloseWithError snk oe (s2\<lparr>b64 := e2\<rparr>)"
        have b2: "broken (s2\<lparr>b64 := e2\<rparr>)" using bad by simp
        then have "settled (s2\<lparr>b64 := e2\<rparr>) (s2\<lparr>b64 := e2\<rparr>)"
          unfolding broken_def by (intro settled_refl) simp
        then have "settled (s2\<lparr>b64 := e2\<rparr>) (deferred_close snk ?s3)"
          by (intro deferred_close_settled pipe_Close_settled)
        then have "broken (deferred_close snk ?s3)" by (rule broken_settled [OF b2])
        then show ?thesis using c Ret v by (simp add: after_copy_def)
      qed
      then show ?thesis unfolding None eqf by simp
    next
      case good
      let ?e2 = "(b64 ?s1)\<lparr>e_buf := []\<rparr>"
      let ?s3 = "pipe_CloseWithError snk None (s2\<lparr>b64 := ?e2\<rparr>)"
      have eqa: "after_copy snk None ?s1 = deferred_close snk ?s3"
        using c good(2) by (simp add: after_copy_def)
      have body: "part Body (s2\<lparr>b64 := ?e2\<rparr>) = b64_Encode inp"
        using good(3) X b64_Encode_append [OF X(2), of "e_buf (b64 ?s1)"] by simp
      have F2: "feeding hdr ftr (n + 1) (s2\<lparr>b64 := ?e2\<rparr>)" using good(1) by simp
      from close_eof_fed [OF F2 body, of snk]
      show ?thesis
      proof
        assume b3: "broken ?s3"
        then have "settled ?s3 ?s3" unfolding broken_def by (intro settled_refl) simp
        then have "settled ?s3 (deferred_close snk ?s3)" by (rule deferred_close_settled)
        then have "broken (deferred_close snk ?s3)" by (rule broken_settled [OF b3])
        then show ?thesis unfolding None eqf eqa by simp
      next
        assume ok: "done_ok hdr ftr (n + 1) inp ?s3"
        then have "settled ?s3 ?s3" unfolding done_ok_def by (intro settled_refl) simp
        then have "settled ?s3 (deferred_close snk ?s3)" by (rule deferred_close_settled)
        then have "done_ok hdr ftr (n + 1) inp (deferred_close snk ?s3)"
          by (rule done_ok_settled [OF ok])
        then show ?thesis unfolding None eqf eqa by simp
      qed
    qed
  qed
qed

lemma failed_broken: "inv_fail s \<Longrightarrow> failed s \<Longrightarrow> \<exists>e. drain s = Returned (Some e)"
proof -
  assume f: "inv_fail s" and b: "failed s"
  then obtain c where c: "c \<in> set (calls s)" "copy_error c \<noteq> None" unfolding failed_def by blast
  then have ne: "calls s \<noteq> []" by auto
  have "c \<notin> set (butlast (calls s))" using f c(2) unfolding inv_fail_def by auto
  then have "c = last (calls s)" using c(1) ne
    by (metis append_butlast_last_id Un_iff set_append empty_iff insert_iff list.set(1) list.simps(15))
  then obtain e where "copy_error (last (calls s)) = Some e" using c(2) by auto
  then show ?thesis using f ne unfolding inv_fail_def by blast
qed

lemma Encode_start_fed:
  "broken (Encode_start getenv enc d) \<or>
   fed (build_header getenv (options enc)) (footerEscape getenv) 0 [] (Encode_start getenv enc d)"
proof -
  let ?s0 = "\<lparr>dest = d, calls = [], drain = Draining, werr = None,
       footer = footerEscape getenv, b64 = NewEncoder, task = Copying,
       reads = 0, pw_ops = []\<rparr>"
  let ?s1 = "Encode_start getenv enc d"
  let ?hdr = "build_header getenv (options enc)"
  obtain rest where g: "grows (out enc) Header ?hdr rest ?s0 ?s1"
    using Encode_start_grows [of enc getenv d] by blast
  note fl = grows_fields [OF g]
  have f0: "inv_fail ?s0" unfolding inv_fail_def failed_def by simp
  have d0: "drain ?s0 = Draining" by simp
  show ?thesis
  proof (cases "drain ?s1 = Draining")
    case False
    then have "failed ?s1" using grows_fail(2) [OF f0 d0 g] by simp
    then show ?thesis using False by (simp add: broken_def)
  next
    case True
    have "part Header ?s1 = part Header ?s0 @ ?hdr" by (rule grows_part_same [OF g True])
    moreover have "part Body ?s1 = part Body ?s0" "part Footer ?s1 = part Footer ?s0"
      using grows_part_other [OF g] by simp_all
    moreover have "inv_fail ?s1" by (rule grows_fail(1) [OF f0 d0 g])
    ultimately have "fed ?hdr (footerEscape getenv) 0 [] ?s1"
      unfolding fed_def feeding_def using True fl by (simp add: part_def NewEncoder_def)
    then show ?thesis by simp
  qed
qed

lemma Encode_outcome:
  "broken (Encode getenv enc r d) \<or>
   (case final r of
      None \<Rightarrow> done_ok (build_header getenv (options enc)) (footerEscape getenv)
                (length (chunks r) + 1) (concat (chunks r)) (Encode getenv enc r d)
    | Some e \<Rightarrow> done_err e (build_header getenv (options enc)) (length (chunks r) + 1)
                  (Encode getenv enc r d))"
proof -
  let ?hdr = "build_header getenv (options enc)"
  let ?ftr = "footerEscape getenv"
  let ?s1 = "Encode_start getenv enc d"
  let ?s2 = "foldl (\<lambda>s chunk. feed (out enc) chunk s) ?s1 (chunks r)"
  have "broken ?s2 \<or> fed ?hdr ?ftr (length (chunks r)) (concat (chunks r)) ?s2"
    using Encode_start_fed [of getenv enc d]
  proof
    assume "broken ?s1"
    then show ?thesis using feeds_broken by blast
  next
    assume "fed ?hdr ?ftr 0 [] ?s1"
    from feeds_fed [OF this, of "out enc" "chunks r"] show ?thesis by simp
  qed
  then show ?thesis
  proof
    assume "broken ?s2"
    then show ?thesis unfolding Encode_def using finish_broken by blast
  next
    assume "fed ?hdr ?ftr (length (chunks r)) (concat (chunks r)) ?s2"
    from finish_fed [OF this, of "out enc" "final r"] show ?thesis unfolding Encode_def .
  qed
qed

lemma sorted_parts:
  "sorted (map (\<lambda>c. rank (c_seg c)) cs) \<Longrightarrow>
   concat (map c_data cs) =
     concat (map c_data (filter (\<lambda>c. c_seg c = Header) cs)) @
     concat (map c_data (filter (\<lambda>c. c_seg c = Body) cs)) @
     concat (map c_data (filter (\<lambda>c. c_seg c = Footer) cs))"
proof (induction cs)
  case Nil
  then show ?case by simp
next
  case (Cons c cs)
  then have IH: "concat (map c_data cs) =
     concat (map c_data (filter (\<lambda>c. c_seg c = Header) cs)) @
     concat (map c_data (filter (\<lambda>c. c_seg c = Body) cs)) @
     concat (map c_data (filter (\<lambda>c. c_seg c = Footer) cs))"
    and le: "\<forall>x \<in> set cs. rank (c_seg c) \<le> rank (c_seg x)"
    by simp_all
  show ?case
  proof (cases "c_seg c")
    case Header
    then show ?thesis using IH by simp
  next
    case Body
    then have "\<forall>x \<in> set cs. c_seg x \<noteq> Header" using le by (metis rank.simps(1,2) not_one_le_zero)
    then have "filter (\<lambda>c. c_seg c = Header) cs = []" by (simp add: filter_empty_conv)
    then show ?thesis using IH Body by simp
  next
    case Footer
    then have "\<forall>x \<in> set cs. c_seg x = Footer" using le
      by (metis rank.simps rank.elims numeral_le_one_iff semiring_norm(69) le_zero_eq zero_neq_numeral)
    then have "filter (\<lambda>c. c_seg c = Header) cs = []" "filter (\<lambda>c. c_seg c = Body) cs = []"
      by (auto simp: filter_empty_conv)
    then show ?thesis using IH Footer by simp
  qed
qed

lemma written_parts:
  "inv_order s \<Longrightarrow> written s = part Header s @ part Body s @ part Footer s"
  unfolding inv_order_def written_def part_def by (intro sorted_parts) simp

lemma Encode_success_parts:
  assumes "result (Encode getenv enc r d) = Ret None"
  shows "final r = None"
    and "done_ok (build_header getenv (options enc)) (footerEscape getenv)
           (length (chunks r) + 1) (concat (chunks r)) (Encode getenv enc r d)"
proof -
  let ?s = "Encode getenv enc r d"
  have d: "drain ?s = Returned None" using assms unfolding result_def
    by (cases "drain ?s") auto
  have f: "inv_fail ?s" using Encode_inv [of enc getenv r d] unfolding invar_def by simp
  have nb: "\<not> broken ?s" using failed_broken [OF f] d unfolding broken_def by auto
  have "final r = None \<and> done_ok (build_header getenv (options enc)) (footerEscape getenv)
           (length (chunks r) + 1) (concat (chunks r)) ?s"
  proof (cases "final r")
    case None
    then show ?thesis using Encode_outcome [of getenv enc r d] nb by simp
  next
    case (Some e)
    then have "done_err e (build_header getenv (options enc)) (length (chunks r) + 1) ?s"
      using Encode_outcome [of getenv enc r d] nb by simp
    then show ?thesis using d unfolding done_err_def by simp
  qed
  then show "final r = None"
    and "done_ok (build_header getenv (options enc)) (footerEscape getenv)
           (length (chunks r) + 1) (concat (chunks r)) (Encode getenv enc r d)" by simp_all
qed

text \<open>
  Claim C2.  A successful \<open>Encode\<close> of the bytes B gives the destination exactly the
  header, the standard padded base64 encoding of B and the footer; taking header and
  footer off and decoding what is left gives B.
\<close>

theorem Encode_round_trip:
  assumes "result (Encode getenv enc r d) = Ret None"
  shows "written (Encode getenv enc r d) =
           build_header getenv (options enc) @ b64_Encode (concat (chunks r)) @ footerEscape getenv \<and>
         b64_Decode
           (take (length (written (Encode getenv enc r d))
                    - length (build_header getenv (options enc)) - length (footerEscape getenv))
              (drop (length (build_header getenv (options enc)))
                 (written (Encode getenv enc r d)))) = Some (concat (chunks r))"
proof -
  let ?s = "Encode getenv enc r d"
  have ok: "done_ok (build_header getenv (options enc)) (footerEscape getenv)
           (length (chunks r) + 1) (concat (chunks r)) ?s"
    by (rule Encode_success_parts(2) [OF assms])
  have o: "inv_order ?s" using Encode_inv [of enc getenv r d] unfolding invar_def by simp
  have w: "written ?s =
           build_header getenv (options enc) @ b64_Encode (concat (chunks r)) @ footerEscape getenv"
    using written_parts [OF o] ok unfolding done_ok_def by simp
  show ?thesis unfolding w by (simp add: b64_roundtrip)
qed

section \<open>The wire format\<close>

lemma write_options_join:
  "i + length opts = n \<Longrightarrow> write_options opts i n hdr = hdr @ join_attrs opts"
proof (induction opts arbitrary: i hdr)
  case Nil
  then show ?case by simp
next
  case (Cons a rest)
  show ?case
  proof (cases rest)
    case Nil
    then show ?thesis using Cons.prems by simp
  next
    case (Cons b rest')
    have "int i < int n - 1" using Cons.prems Cons by simp
    moreover have "write_options rest (i + 1) n (hdr @ a @ '';'') = (hdr @ a @ '';'') @ join_attrs rest"
      using Cons.prems by (intro Cons.IH) simp
    ultimately show ?thesis using Cons by simp
  qed
qed

lemma build_header_join:
  "build_header getenv opts = headerEscape getenv @ join_attrs opts @ '':''"
  by (simp add: build_header_def write_options_join)

lemma accepts_not_failed: "accepts snk \<Longrightarrow> inv_sink snk s \<Longrightarrow> \<not> failed s"
proof -
  assume a: "accepts snk" and k: "inv_sink snk s"
  have "copy_error c = None" if "c \<in> set (calls s)" for c
  proof -
    from k that obtain d where "fst (snk (c_data c) d) = (c_n c, c_err c)"
      unfolding inv_sink_def by blast
    then have "c_n c = int (length (c_data c))" "c_err c = None"
      using a unfolding accepts_def by (metis prod.inject)+
    then show ?thesis by (simp add: copy_error_def)
  qed
  then show ?thesis unfolding failed_def by auto
qed

lemma Encode_accepts:
  assumes "accepts (out enc)" "final r = None"
  shows "result (Encode getenv enc r d) = Ret None"
proof -
  let ?s = "Encode getenv enc r d"
  have "inv_sink (out enc) ?s" using Encode_inv [of enc getenv r d] unfolding invar_def by simp
  then have "\<not> failed ?s" by (rule accepts_not_failed [OF assms(1)])
  then have "\<not> broken ?s" unfolding broken_def by simp
  then have "done_ok (build_header getenv (options enc)) (footerEscape getenv)
                (length (chunks r) + 1) (concat (chunks r)) ?s"
    using Encode_outcome [of getenv enc r d] assms(2) by simp
  then show ?thesis unfolding done_ok_def result_def by simp
qed

theorem Encode_round_trip_witness:
  "result (Encode plain_env \<lparr>out = buffer_sink, options = [Inline True]\<rparr>
             \<lparr>chunks = [''AB'', ''CDE''], final = None\<rparr> []) = Ret None \<and>
   written (Encode plain_env \<lparr>out = buffer_sink, options = [Inline True]\<rparr>
             \<lparr>chunks = [''AB'', ''CDE''], final = None\<rparr> [])
     = [ESC] @ '']1337;File=inline=1:'' @ ''QUJDREU='' @ [BEL, CHR 0x0A] \<and>
   b64_Decode
     (take (length (written (Encode plain_env \<lparr>out = buffer_sink, options = [Inline True]\<rparr>
                              \<lparr>chunks = [''AB'', ''CDE''], final = None\<rparr> []))
              - length (build_header plain_env [Inline True]) - length (footerEscape plain_env))
        (drop (length (build_header plain_env [Inline True]))
           (written (Encode plain_env \<lparr>out = buffer_sink, options = [Inline True]\<rparr>
                       \<lparr>chunks = [''AB'', ''CDE''], final = None\<rparr> []))))
     = Some ''ABCDE''"
proof -
  let ?s = "Encode plain_env \<lparr>out = buffer_sink, options = [Inline True]\<rparr>
             \<lparr>chunks = [''AB'', ''CDE''], final = None\<rparr> []"
  have r: "result ?s = Ret None"
    by (simp add: run_simps)
  have h: "build_header plain_env [Inline True] = [ESC] @ '']1337;File=inline=1:''"
    by (simp add: run_simps)
  have f: "footerEscape plain_env = [BEL, CHR 0x0A]" by (simp add: run_simps)
  have b: "b64_Encode ''ABCDE'' = ''QUJDREU=''" by (simp add: sextet_def encodeStd_def)
  have c: "concat (chunks \<lparr>chunks = [''AB'', ''CDE''], final = None\<rparr>) = ''ABCDE''" by simp
  note t = Encode_round_trip [OF r]
  have w: "written ?s = [ESC] @ '']1337;File=inline=1:'' @ ''QUJDREU='' @ [BEL, CHR 0x0A]"
    using t by (simp add: h f b del: b64_Encode.simps)
  have d: "b64_Decode
     (take (length (written ?s)
              - length (build_header plain_env [Inline True]) - length (footerEscape plain_env))
        (drop (length (build_header plain_env [Inline True])) (written ?s)))
     = Some ''ABCDE''"
    using t by (simp add: b64_roundtrip del: b64_Encode.simps)
  show ?thesis using r w d by blast
qed

text \<open>
  Claim C3.  With the options width=80, height=24, inline=1, outside tmux, and the input
  "AB", a successful \<open>Encode\<close> writes the header
  \<open>ESC ] 1337 ; File = width=80;height=24;inline=1 :\<close>, the body \<open>QUI=\<close> and the footer
  \<open>BEL \n\<close>, byte for byte.
\<close>

theorem Encode_example:
  assumes "\<not> isTmux getenv"
      and "options enc = [Width (Cells 80), Height (Cells 24), Inline True]"
      and "concat (chunks r) = ''AB''"
      and "result (Encode getenv enc r d) = Ret None"
  shows "part Header (Encode getenv enc r d) = [ESC] @ '']1337;File=width=80;height=24;inline=1:'' \<and>
         part Body (Encode getenv enc r d) = ''QUI='' \<and>
         part Footer (Encode getenv enc r d) = [BEL, CHR 0x0A] \<and>
         written (Encode getenv enc r d)
           = [ESC] @ '']1337;File=width=80;height=24;inline=1:'' @ ''QUI='' @ [BEL, CHR 0x0A]"
proof -
  let ?s = "Encode getenv enc r d"
  have ok: "done_ok (build_header getenv (options enc)) (footerEscape getenv)
           (length (chunks r) + 1) (concat (chunks r)) ?s"
    by (rule Encode_success_parts(2) [OF assms(4)])
  have o: "inv_order ?s" using Encode_inv [of enc getenv r d] unfolding invar_def by simp
  have h: "build_header getenv (options enc) = [ESC] @ '']1337;File=width=80;height=24;inline=1:''"
    unfolding build_header_join assms(2) using assms(1)
    by (simp add: headerEscape_def Width_def Height_def Cells_def Inline_def boolToInt_def itoa_def
          dec_digits.simps)
  have f: "footerEscape getenv = [BEL, CHR 0x0A]" using assms(1) by (simp add: footerEscape_def)
  have b: "b64_Encode ''AB'' = ''QUI=''" by (simp add: sextet_def encodeStd_def)
  have p: "part Header ?s = [ESC] @ '']1337;File=width=80;height=24;inline=1:''"
      "part Body ?s = ''QUI=''" "part Footer ?s = [BEL, CHR 0x0A]"
    using ok unfolding done_ok_def h f assms(3) b by simp_all
  show ?thesis using p written_parts [OF o] by simp
qed

theorem Encode_example_witness:
  "\<not> isTmux plain_env \<and>
   concat [''A'', ''B''] = ''AB'' \<and>
   result (Encode plain_env
             \<lparr>out = buffer_sink, options = [Width (Cells 80), Height (Cells 24), Inline True]\<rparr>
             \<lparr>chunks = [''A'', ''B''], final = None\<rparr> []) = Ret None \<and>
   written (Encode plain_env
             \<lparr>out = buffer_sink, options = [Width (Cells 80), Height (Cells 24), Inline True]\<rparr>
             \<lparr>chunks = [''A'', ''B''], final = None\<rparr> [])
     = [ESC] @ '']1337;File=width=80;height=24;inline=1:'' @ ''QUI='' @ [BEL, CHR 0x0A]"
proof -
  have t: "\<not> isTmux plain_env" by (simp add: isTmux_def plain_env_def)
  have r: "result (Encode plain_env
             \<lparr>out = buffer_sink, options = [Width (Cells 80), Height (Cells 24), Inline True]\<rparr>
             \<lparr>chunks = [''A'', ''B''], final = None\<rparr> []) = Ret None"
    by (rule Encode_accepts) (simp_all add: accepts_def buffer_sink_def)
  show ?thesis
    using t r Encode_example [of plain_env
        "\<lparr>out = buffer_sink, options = [Width (Cells 80), Height (Cells 24), Inline True]\<rparr>"
        "\<lparr>chunks = [''A'', ''B''], final = None\<rparr>" "[]"]
    by simp
qed

text \<open>
  Claim C4.  For the same options and input, the output inside tmux and the output
  outside tmux differ only in the bytes that introduce the header and in the footer:
  the attribute list, the colon and the base64 body are the same bytes in both.
\<close>

theorem framing_modes:
  assumes "isTmux env1" and "\<not> isTmux env2" and "options enc1 = options enc2"
      and "result (Encode env1 enc1 r d1) = Ret None"
      and "result (Encode env2 enc2 r d2) = Ret None"
  shows "written (Encode env1 enc1 r d1) =
           ([ESC] @ ''Ptmux;'' @ [ESC, ESC] @ '']1337;File='') @ join_attrs (options enc1) @ '':'' @
           b64_Encode (concat (chunks r)) @ [BEL, ESC, CHR 0x5C, CHR 0x0A] \<and>
         written (Encode env2 enc2 r d2) =
           ([ESC] @ '']1337;File='') @ join_attrs (options enc1) @ '':'' @
           b64_Encode (concat (chunks r)) @ [BEL, CHR 0x0A] \<and>
         part Body (Encode env1 enc1 r d1) = part Body (Encode env2 enc2 r d2)"
proof -
  have ok1: "done_ok (build_header env1 (options enc1)) (footerEscape env1)
           (length (chunks r) + 1) (concat (chunks r)) (Encode env1 enc1 r d1)"
    by (rule Encode_success_parts(2) [OF assms(4)])
  have ok2: "done_ok (build_header env2 (options enc2)) (footerEscape env2)
           (length (chunks r) + 1) (concat (chunks r)) (Encode env2 enc2 r d2)"
    by (rule Encode_success_parts(2) [OF assms(5)])
  have o1: "inv_order (Encode env1 enc1 r d1)"
    using Encode_inv [of enc1 env1 r d1] unfolding invar_def by simp
  have o2: "inv_order (Encode env2 enc2 r d2)"
    using Encode_inv [of enc2 env2 r d2] unfolding invar_def by simp
  have h1: "build_header env1 (options enc1) =
      ([ESC] @ ''Ptmux;'' @ [ESC, ESC] @ '']1337;File='') @ join_attrs (options enc1) @ '':''"
    unfolding build_header_join using assms(1) by (simp add: headerEscape_def)
  have h2: "build_header env2 (options enc2) =
      ([ESC] @ '']1337;File='') @ join_attrs (options enc1) @ '':''"
    unfolding build_header_join using assms(2,3) by (simp add: headerEscape_def)
  have f1: "footerEscape env1 = [BEL, ESC, CHR 0x5C, CHR 0x0A]"
    using assms(1) by (simp add: footerEscape_def)
  have f2: "footerEscape env2 = [BEL, CHR 0x0A]" using assms(2) by (simp add: footerEscape_def)
  have w1: "written (Encode env1 enc1 r d1) =
           ([ESC] @ ''Ptmux;'' @ [ESC, ESC] @ '']1337;File='') @ join_attrs (options enc1) @ '':'' @
           b64_Encode (concat (chunks r)) @ [BEL, ESC, CHR 0x5C, CHR 0x0A]"
    using written_parts [OF o1] ok1 unfolding done_ok_def h1 f1 by simp
  have w2: "written (Encode env2 enc2 r d2) =
           ([ESC] @ '']1337;File='') @ join_attrs (options enc1) @ '':'' @
           b64_Encode (concat (chunks r)) @ [BEL, CHR 0x0A]"
    using written_parts [OF o2] ok2 unfolding done_ok_def h2 f2 by simp
  have b: "part Body (Encode env1 enc1 r d1) = part Body (Encode env2 enc2 r d2)"
    using ok1 ok2 unfolding done_ok_def by simp
  show ?thesis using w1 w2 b by blast
qed

theorem framing_modes_witness:
  "isTmux tmux_env \<and> \<not> isTmux plain_env \<and>
   result (Encode tmux_env \<lparr>out = buffer_sink, options = [Inline True, Size 5]\<rparr>
             \<lparr>chunks = [''ABCDE''], final = None\<rparr> []) = Ret None \<and>
   result (Encode plain_env \<lparr>out = buffer_sink, options = [Inline True, Size 5]\<rparr>
             \<lparr>chunks = [''ABCDE''], final = None\<rparr> []) = Ret None \<and>
   written (Encode tmux_env \<lparr>out = buffer_sink, options = [Inline True, Size 5]\<rparr>
             \<lparr>chunks = [''ABCDE''], final = None\<rparr> [])
     = ([ESC] @ ''Ptmux;'' @ [ESC, ESC] @ '']1337;File='') @ ''inline=1;size=5'' @ '':'' @
       ''QUJDREU='' @ [BEL, ESC, CHR 0x5C, CHR 0x0A] \<and>
   written (Encode plain_env \<lparr>out = buffer_sink, options = [Inline True, Size 5]\<rparr>
             \<lparr>chunks = [''ABCDE''], final = None\<rparr> [])
     = ([ESC] @ '']1337;File='') @ ''inline=1;size=5'' @ '':'' @ ''QUJDREU='' @ [BEL, CHR 0x0A]"
proof -
  have t: "isTmux tmux_env" "\<not> isTmux plain_env"
    by (simp_all add: isTmux_def tmux_env_def plain_env_def)
  have a: "accepts buffer_sink" by (simp add: accepts_def buffer_sink_def)
  have r1: "result (Encode tmux_env \<lparr>out = buffer_sink, options = [Inline True, Size 5]\<rparr>
             \<lparr>chunks = [''ABCDE''], final = None\<rparr> []) = Ret None"
    by (rule Encode_accepts) (simp_all add: a)
  have r2: "result (Encode plain_env \<lparr>out = buffer_sink, options = [Inline True, Size 5]\<rparr>
             \<lparr>chunks = [''ABCDE''], final = None\<rparr> []) = Ret None"
    by (rule Encode_accepts) (simp_all add: a)
  have j: "join_attrs [Inline True, Size 5] = ''inline=1;size=5''"
    by (simp add: Inline_def Size_def boolToInt_def itoa_def dec_digits.simps)
  have b: "b64_Encode ''ABCDE'' = ''QUJDREU=''" by (simp add: sextet_def encodeStd_def)
  show ?thesis
    using t r1 r2 framing_modes [OF t _ r1 r2]
    by (simp add: j b del: b64_Encode.simps join_attrs.simps)
qed

section \<open>The terminal state of the pipe\<close>




end
